theory Spec2Isabelle
  imports Main "HOL-Library.Word" "HOL-Library.Multiset"
begin

unbundle bit_operations_syntax

section \<open>The compression normalizer of \<open>fix_compression.py\<close>\<close>

text \<open>
  The script lists one directory, keeps the names ending in \<open>.frag\<close>, reads the first
  two bytes of each such file and, when they are not the gzip magic number, reads the whole
  file and writes it back through a gzip stream. Everything the script does is an effect on
  the file system or on the console, so the model threads a \<open>world\<close> through every
  statement; an uncaught exception is the left summand, carrying the world as the exception
  left it.
\<close>

subsection \<open>The world: directory listings, paths, inodes, clock, console\<close>

type_synonym byte = "8 word"
type_synonym bytes = "byte list"

datatype error =
  FileNotFoundError | NotADirectoryError | IsADirectoryError | PermissionError | OSError

datatype mode = RB | WB

text \<open>
  What an inode holds: a directory, or a regular file with its permission to be opened for
  reading, its permission to be opened for writing, and its content.
\<close>

datatype node = Dir | File (readable: bool) (writable: bool) (content: bytes)

text \<open>
  \<^item> \<open>dirs\<close> gives, for a directory path, what \<open>os.listdir\<close> does there: the error it
    raises, or the names it returns in the order of the enumeration;
  \<^item> \<open>paths\<close> resolves a path to the number of the inode it names, symbolic links followed,
    so that two paths linked to one file resolve to one number;
  \<^item> \<open>inodes\<close> gives what each inode holds, and \<open>free_inode\<close> is a number no path uses,
    taken when a file is created;
  \<^item> \<open>clock\<close> gives the time the clock shows when it is read for the \<open>k\<close>-th time, and
    \<open>clock_reads\<close> counts the readings made so far;
  \<^item> \<open>fsize_limit\<close> is the number of bytes a write can put into a file before the system
    refuses more (the space left, or the limit on the size of a file), if there is one;
  \<^item> \<open>stdout\<close> is the list of lines printed so far;
  \<^item> \<open>opened\<close> records every call to \<open>open\<close> with its mode and path, in order.
\<close>

record world =
  dirs :: "string \<Rightarrow> error + string list"
  paths :: "string \<rightharpoonup> nat"
  inodes :: "nat \<Rightarrow> node"
  free_inode :: nat
  clock :: "nat \<Rightarrow> nat"
  clock_reads :: nat
  fsize_limit :: "nat option"
  stdout :: "string list"
  opened :: "(mode \<times> string) list"

type_synonym 'a result = "(error \<times> world) + 'a"

text \<open>What a path names in a world, if anything.\<close>

definition files :: "world \<Rightarrow> string \<rightharpoonup> node" where
  "files w p = map_option (inodes w) (paths w p)"

subsection \<open>Library calls the script makes\<close>

definition startswith :: "string \<Rightarrow> string \<Rightarrow> bool" where
  "startswith s pre = (take (length pre) s = pre)"

definition endswith :: "string \<Rightarrow> string \<Rightarrow> bool" where
  "endswith s suf = (length suf \<le> length s \<and> drop (length s - length suf) s = suf)"

text \<open>\<open>os.path.join\<close> of two components, on a POSIX system.\<close>

definition os_path_join :: "string \<Rightarrow> string \<Rightarrow> string" where
  "os_path_join a b =
     (if startswith b ''/'' then b
      else if a = [] \<or> endswith a ''/'' then a @ b
      else a @ ''/'' @ b)"

definition print :: "string \<Rightarrow> world \<Rightarrow> world" where
  "print line w = w\<lparr>stdout := stdout w @ [line]\<rparr>"

definition os_listdir :: "string \<Rightarrow> world \<Rightarrow> string list result" where
  "os_listdir d w =
     (case dirs w d of
        Inl e \<Rightarrow> Inl (e, w)
      | Inr names \<Rightarrow> Inr names)"

text \<open>
  \<open>open(path, 'rb')\<close>: the stream it yields is modelled by the file's content, from which
  \<open>read(n)\<close> takes at most \<open>n\<close> bytes and \<open>read()\<close> takes all.
\<close>

definition open_rb :: "string \<Rightarrow> world \<Rightarrow> (bytes \<times> world) result" where
  "open_rb p w =
     (let w' = w\<lparr>opened := opened w @ [(RB, p)]\<rparr> in
      case files w p of
        None \<Rightarrow> Inl (FileNotFoundError, w')
      | Some Dir \<Rightarrow> Inl (IsADirectoryError, w')
      | Some (File r wr c) \<Rightarrow> if r then Inr (c, w') else Inl (PermissionError, w'))"

definition read :: "nat \<Rightarrow> bytes \<Rightarrow> bytes" where
  "read n f = take n f"

definition read_all :: "bytes \<Rightarrow> bytes" where
  "read_all f = f"

text \<open>
  Writing a byte string into a file that has just been truncated: all of it when there is
  no limit or it fits, otherwise the bytes up to the limit, and then the write fails.
\<close>

definition fits :: "nat option \<Rightarrow> bytes \<Rightarrow> bool" where
  "fits limit member = (case limit of None \<Rightarrow> True | Some l \<Rightarrow> length member \<le> l)"

definition written :: "nat option \<Rightarrow> bytes \<Rightarrow> bytes" where
  "written limit member = (case limit of None \<Rightarrow> member | Some l \<Rightarrow> take l member)"

text \<open>
  The gzip stream on an inode opened for writing: the library reads the clock for the
  header, encodes, and the bytes go into the truncated file. The encoder \<open>gz\<close> is a
  parameter: it stands for the gzip library, which maps the time read, the path opened (the
  header carries the file name) and the data to the bytes of the member.
\<close>

definition gzip_write ::
  "(nat \<Rightarrow> string \<Rightarrow> bytes \<Rightarrow> bytes) \<Rightarrow> string \<Rightarrow> bytes \<Rightarrow> nat \<Rightarrow> bool \<Rightarrow> bool \<Rightarrow> world
     \<Rightarrow> world result" where
  "gzip_write gz p data i r wr w =
     (let member = gz (clock w (clock_reads w)) p data;
          w' = w\<lparr>clock_reads := Suc (clock_reads w),
                 inodes := (inodes w)(i := File r wr (written (fsize_limit w) member))\<rparr>
      in if fits (fsize_limit w) member then Inr w' else Inl (OSError, w'))"

text \<open>
  \<open>with gzip.open(path, 'wb') as f: f.write(data)\<close>. The path is opened for writing,
  which creates the file when the path names nothing, refuses a directory and a file
  without write permission, and truncates the file it opens, whatever other paths name it.
\<close>

definition gzip_open_wb_write ::
  "(nat \<Rightarrow> string \<Rightarrow> bytes \<Rightarrow> bytes) \<Rightarrow> string \<Rightarrow> bytes \<Rightarrow> world \<Rightarrow> world result" where
  "gzip_open_wb_write gz p data w =
     (let w' = w\<lparr>opened := opened w @ [(WB, p)]\<rparr> in
      case paths w p of
        None \<Rightarrow>
          gzip_write gz p data (free_inode w) True True
            (w'\<lparr>paths := (paths w)(p \<mapsto> free_inode w), free_inode := Suc (free_inode w)\<rparr>)
      | Some i \<Rightarrow>
          (case inodes w i of
             Dir \<Rightarrow> Inl (IsADirectoryError, w')
           | File r wr c \<Rightarrow>
               if wr then gzip_write gz p data i r wr w' else Inl (PermissionError, w')))"

subsection \<open>The script\<close>

definition models_dir :: string where
  "models_dir = ''VSR_IFC/public/models''"

definition magic :: bytes where
  "magic = [0x1f, 0x8b]"

definition checking_line :: string where
  "checking_line = ''Checking models in '' @ models_dir @ ''...''"

definition ok_line :: "string \<Rightarrow> string" where
  "ok_line filename = ''[OK] '' @ filename @ '' is already gzipped.''"

definition fix_line :: "string \<Rightarrow> string" where
  "fix_line filename = ''[FIX] '' @ filename @ '' is NOT gzipped. Compressing...''"

definition compressed_line :: "string \<Rightarrow> string" where
  "compressed_line filename = ''      Compressed '' @ filename"

definition done_line :: string where
  "done_line = ''Done.''"

text \<open>The body of the loop for one name that passed the \<open>.frag\<close> test.\<close>

definition process_file ::
  "(nat \<Rightarrow> string \<Rightarrow> bytes \<Rightarrow> bytes) \<Rightarrow> string \<Rightarrow> world \<Rightarrow> world result" where
  "process_file gz filename w =
     (let filepath = os_path_join models_dir filename in
      case open_rb filepath w of
        Inl x \<Rightarrow> Inl x
      | Inr (f, w1) \<Rightarrow>
          (let header = read 2 f in
           if header = magic then Inr (print (ok_line filename) w1)
           else
             (let w2 = print (fix_line filename) w1 in
              (case open_rb filepath w2 of
                 Inl x \<Rightarrow> Inl x
               | Inr (f', w3) \<Rightarrow>
                   (let data = read_all f' in
                    (case gzip_open_wb_write gz filepath data w3 of
                       Inl x \<Rightarrow> Inl x
                     | Inr w4 \<Rightarrow> Inr (print (compressed_line filename) w4)))))))"

text \<open>The \<open>for\<close> loop over the listing; an exception in one iteration ends the loop.\<close>

fun for_loop ::
  "(nat \<Rightarrow> string \<Rightarrow> bytes \<Rightarrow> bytes) \<Rightarrow> string list \<Rightarrow> world \<Rightarrow> world result" where
  "for_loop gz [] w = Inr w"
| "for_loop gz (filename # rest) w =
     (if endswith filename ''.frag'' then
        (case process_file gz filename w of
           Inl x \<Rightarrow> Inl x
         | Inr w' \<Rightarrow> for_loop gz rest w')
      else for_loop gz rest w)"

definition main :: "(nat \<Rightarrow> string \<Rightarrow> bytes \<Rightarrow> bytes) \<Rightarrow> world \<Rightarrow> world result" where
  "main gz w =
     (let w0 = print checking_line w in
      case os_listdir models_dir w0 of
        Inl x \<Rightarrow> Inl x
      | Inr names \<Rightarrow>
          (case for_loop gz names w0 of
             Inl x \<Rightarrow> Inl x
           | Inr w1 \<Rightarrow> Inr (print done_line w1)))"

text \<open>The world a run leaves behind, whether it completed or was aborted.\<close>

definition world_of :: "world result \<Rightarrow> world" where
  "world_of r = (case r of Inl (e, w) \<Rightarrow> w | Inr w \<Rightarrow> w)"

subsection \<open>Vocabulary of the claims\<close>

text \<open>The path the script builds for a name of the listing.\<close>

definition filepath :: "string \<Rightarrow> string" where
  "filepath filename = os_path_join models_dir filename"

text \<open>The candidate files: the names of a listing that pass the script's suffix test.\<close>

definition candidates :: "string list \<Rightarrow> string list" where
  "candidates names = filter (\<lambda>filename. endswith filename ''.frag'') names"

text \<open>Two paths name the same file: they resolve to one inode.\<close>

definition same_file :: "world \<Rightarrow> string \<Rightarrow> string \<Rightarrow> bool" where
  "same_file w p q = (case paths w p of None \<Rightarrow> False | Some i \<Rightarrow> paths w q = Some i)"

text \<open>
  What the script relies on from the gzip library: every member it writes starts with the
  magic number, and decompressing a member gives back the data that was written, whatever
  the time and the path that went into the header.
\<close>

definition gzip_magic :: "(nat \<Rightarrow> string \<Rightarrow> bytes \<Rightarrow> bytes) \<Rightarrow> bool" where
  "gzip_magic gz = (\<forall>t p data. take 2 (gz t p data) = magic)"

definition gzip_roundtrip ::
  "(nat \<Rightarrow> string \<Rightarrow> bytes \<Rightarrow> bytes) \<Rightarrow> (bytes \<Rightarrow> bytes option) \<Rightarrow> bool" where
  "gzip_roundtrip gz gunzip = (\<forall>t p data. gunzip (gz t p data) = Some data)"

text \<open>The lines one iteration prints: the first form when the header matched.\<close>

definition report :: "bool \<Rightarrow> string \<Rightarrow> string list" where
  "report matched filename =
     (if matched then [ok_line filename] else [fix_line filename, compressed_line filename])"

text \<open>A path names a regular file whose content starts with the magic number.\<close>

definition gzipped :: "world \<Rightarrow> string \<Rightarrow> bool" where
  "gzipped w p = (case files w p of Some (File r wr c) \<Rightarrow> take 2 c = magic | _ \<Rightarrow> False)"

subsection \<open>A gzip encoder that meets the contract: stored blocks\<close>

text \<open>
  A gzip member (RFC 1952) whose deflate stream (RFC 1951) consists of stored blocks only:
  the ten-byte header with the modification time and without optional fields, the blocks
  of at most 65535 bytes each, the CRC-32 of the data and its length modulo \<open>2 ^ 32\<close>,
  both little-endian. It is one encoder the parameter \<open>gz\<close> can stand for, with a decoder
  for the members it writes.
\<close>

definition crc32_bit :: "32 word \<Rightarrow> 32 word" where
  "crc32_bit c = (if bit c 0 then drop_bit 1 c XOR 0xEDB88320 else drop_bit 1 c)"

definition crc32_byte :: "32 word \<Rightarrow> byte \<Rightarrow> 32 word" where
  "crc32_byte c b = (crc32_bit ^^ 8) (c XOR ucast b)"

definition crc32 :: "bytes \<Rightarrow> 32 word" where
  "crc32 data = NOT (foldl crc32_byte (NOT 0) data)"

definition le16 :: "nat \<Rightarrow> bytes" where
  "le16 n = [of_nat (n mod 256), of_nat (n div 256 mod 256)]"

definition le32 :: "32 word \<Rightarrow> bytes" where
  "le32 x = [ucast x, ucast (drop_bit 8 x), ucast (drop_bit 16 x), ucast (drop_bit 24 x)]"

function stored_blocks :: "bytes \<Rightarrow> bytes" where
  "stored_blocks data =
     (if length data \<le> 65535
      then 1 # le16 (length data) @ le16 (65535 - length data) @ data
      else 0 # le16 65535 @ le16 0 @ take 65535 data @ stored_blocks (drop 65535 data))"
  by pat_completeness auto
termination
  by (relation "measure length") auto

declare stored_blocks.simps [simp del]

definition gzip_stored :: "nat \<Rightarrow> string \<Rightarrow> bytes \<Rightarrow> bytes" where
  "gzip_stored mtime p data =
     [0x1f, 0x8b, 8, 0] @ le32 (of_nat mtime) @ [2, 255] @ stored_blocks data
       @ le32 (crc32 data) @ le32 (of_nat (length data))"

fun inflate_stored :: "bytes \<Rightarrow> (bytes \<times> bytes) option" where
  "inflate_stored (b # l0 # l1 # n0 # n1 # rest) =
     (let len = unat l0 + 256 * unat l1; nlen = unat n0 + 256 * unat n1 in
      if b AND 6 \<noteq> 0 \<or> len + nlen \<noteq> 65535 \<or> length rest < len then None
      else if bit b 0 then Some (take len rest, drop len rest)
      else (case inflate_stored (drop len rest) of
              None \<Rightarrow> None
            | Some (d, r) \<Rightarrow> Some (take len rest @ d, r)))"
| "inflate_stored _ = None"

definition gunzip_stored :: "bytes \<Rightarrow> bytes option" where
  "gunzip_stored z =
     (if length z < 10 \<or> take 4 z \<noteq> [0x1f, 0x8b, 8, 0] then None
      else (case inflate_stored (drop 10 z) of
              None \<Rightarrow> None
            | Some (d, r) \<Rightarrow>
                if r = le32 (crc32 d) @ le32 (of_nat (length d)) then Some d else None))"



subsection \<open>Example worlds\<close>

text \<open>
  A world with nothing in it: no directory can be listed, no path names anything, the clock
  shows 1000 at its first reading and one more at each further reading, and writes are not
  limited.
\<close>

definition empty_disk :: world where
  "empty_disk =
     \<lparr>dirs = (\<lambda>d. Inl FileNotFoundError), paths = Map.empty, inodes = (\<lambda>i. Dir),
      free_inode = 100, clock = (\<lambda>k. 1000 + k), clock_reads = 0, fsize_limit = None,
      stdout = [], opened = []\<rparr>"

text \<open>
  A directory with an uncompressed model, a file that already has the magic number, a file
  with another extension, a zero-byte model and a name whose suffix differs in case.
\<close>

definition plain_text_data :: bytes where
  "plain_text_data =
     [0x70, 0x6c, 0x61, 0x69, 0x6e, 0x20, 0x74, 0x65, 0x78, 0x74, 0x20, 0x64, 0x61, 0x74, 0x61]"

definition scenario_names :: "string list" where
  "scenario_names = [''mesh.frag'', ''packed.frag'', ''readme.txt'', ''empty.frag'', ''MODEL.FRAG'']"

definition scenario_world :: world where
  "scenario_world =
     empty_disk
       \<lparr>dirs := (\<lambda>d. Inl FileNotFoundError)(models_dir := Inr scenario_names),
        paths :=
          [filepath ''mesh.frag'' \<mapsto> 1, filepath ''packed.frag'' \<mapsto> 2,
           filepath ''readme.txt'' \<mapsto> 3, filepath ''empty.frag'' \<mapsto> 4,
           filepath ''MODEL.FRAG'' \<mapsto> 5],
        inodes :=
          (\<lambda>i. Dir)
            (1 := File True True plain_text_data,
             2 := File True False [0x1f, 0x8b, 8, 0],
             3 := File True True [0x68, 0x69],
             4 := File True True [],
             5 := File True True [0x41])\<rparr>"

definition scenario_done :: world where
  "scenario_done =
     scenario_world
       \<lparr>inodes :=
          (inodes scenario_world)
            (1 := File True True (gzip_stored 1000 (filepath ''mesh.frag'') plain_text_data),
             4 := File True True (gzip_stored 1001 (filepath ''empty.frag'') [])),
        clock_reads := 2,
        stdout :=
          [checking_line,
           fix_line ''mesh.frag'', compressed_line ''mesh.frag'',
           ok_line ''packed.frag'',
           fix_line ''empty.frag'', compressed_line ''empty.frag'',
           done_line],
        opened :=
          [(RB, filepath ''mesh.frag''), (RB, filepath ''mesh.frag''), (WB, filepath ''mesh.frag''),
           (RB, filepath ''packed.frag''),
           (RB, filepath ''empty.frag''), (RB, filepath ''empty.frag''),
           (WB, filepath ''empty.frag'')]\<rparr>"

text \<open>The same files, enumerated in the opposite order.\<close>

definition scenario_reversed :: world where
  "scenario_reversed =
     scenario_world\<lparr>dirs := (\<lambda>d. Inl FileNotFoundError)(models_dir := Inr (rev scenario_names))\<rparr>"

definition scenario_reversed_done :: world where
  "scenario_reversed_done =
     scenario_reversed
       \<lparr>inodes :=
          (inodes scenario_world)
            (4 := File True True (gzip_stored 1000 (filepath ''empty.frag'') []),
             1 := File True True (gzip_stored 1001 (filepath ''mesh.frag'') plain_text_data)),
        clock_reads := 2,
        stdout :=
          [checking_line,
           fix_line ''empty.frag'', compressed_line ''empty.frag'',
           ok_line ''packed.frag'',
           fix_line ''mesh.frag'', compressed_line ''mesh.frag'',
           done_line],
        opened :=
          [(RB, filepath ''empty.frag''), (RB, filepath ''empty.frag''),
           (WB, filepath ''empty.frag''),
           (RB, filepath ''packed.frag''),
           (RB, filepath ''mesh.frag''), (RB, filepath ''mesh.frag''),
           (WB, filepath ''mesh.frag'')]\<rparr>"

text \<open>
  A directory where \<open>link.frag\<close> is a link to the file that \<open>readme.txt\<close> names.
\<close>

definition link_world :: world where
  "link_world =
     empty_disk
       \<lparr>dirs := (\<lambda>d. Inl FileNotFoundError)(models_dir := Inr [''link.frag'', ''readme.txt'']),
        paths := [filepath ''link.frag'' \<mapsto> 1, filepath ''readme.txt'' \<mapsto> 1],
        inodes := (\<lambda>i. Dir)(1 := File True True [0x68, 0x69])\<rparr>"

definition link_done :: world where
  "link_done =
     link_world
       \<lparr>inodes :=
          (inodes link_world)
            (1 := File True True (gzip_stored 1000 (filepath ''link.frag'') [0x68, 0x69])),
        clock_reads := 1,
        stdout :=
          [checking_line, fix_line ''link.frag'', compressed_line ''link.frag'', done_line],
        opened :=
          [(RB, filepath ''link.frag''), (RB, filepath ''link.frag''),
           (WB, filepath ''link.frag'')]\<rparr>"

text \<open>
  A directory whose second model can be read but not written, so that the run is aborted
  there, and whose third name is a link to the file of the first.
\<close>

definition abort_world :: world where
  "abort_world =
     empty_disk
       \<lparr>dirs := (\<lambda>d. Inl FileNotFoundError)
          (models_dir := Inr [''a.frag'', ''locked.frag'', ''b.frag'']),
        paths :=
          [filepath ''a.frag'' \<mapsto> 1, filepath ''locked.frag'' \<mapsto> 2,
           filepath ''b.frag'' \<mapsto> 1],
        inodes := (\<lambda>i. Dir)(1 := File True True [1, 2, 3], 2 := File True False [4, 5, 6])\<rparr>"

definition abort_state :: world where
  "abort_state =
     abort_world
       \<lparr>inodes :=
          (inodes abort_world)
            (1 := File True True (gzip_stored 1000 (filepath ''a.frag'') [1, 2, 3])),
        clock_reads := 1,
        stdout := [checking_line, fix_line ''a.frag'', compressed_line ''a.frag'',
                   fix_line ''locked.frag''],
        opened :=
          [(RB, filepath ''a.frag''), (RB, filepath ''a.frag''), (WB, filepath ''a.frag''),
           (RB, filepath ''locked.frag''), (RB, filepath ''locked.frag''),
           (WB, filepath ''locked.frag'')]\<rparr>"

text \<open>
  A directory of three separate models on a system that lets a file grow to 24 bytes only:
  the member for the empty first model has 23 bytes and fits, the member for the second
  does not.
\<close>

definition full_world :: world where
  "full_world =
     empty_disk
       \<lparr>dirs := (\<lambda>d. Inl FileNotFoundError)
          (models_dir := Inr [''a.frag'', ''big.frag'', ''b.frag'']),
        paths :=
          [filepath ''a.frag'' \<mapsto> 1, filepath ''big.frag'' \<mapsto> 2,
           filepath ''b.frag'' \<mapsto> 3],
        inodes :=
          (\<lambda>i. Dir)
            (1 := File True True [], 2 := File True True [4, 5, 6], 3 := File True True []),
        fsize_limit := Some 24\<rparr>"

definition full_before :: world where
  "full_before =
     full_world
       \<lparr>inodes :=
          (inodes full_world)(1 := File True True (gzip_stored 1000 (filepath ''a.frag'') [])),
        clock_reads := 1,
        stdout := [checking_line, fix_line ''a.frag'', compressed_line ''a.frag''],
        opened :=
          [(RB, filepath ''a.frag''), (RB, filepath ''a.frag''), (WB, filepath ''a.frag'')]\<rparr>"

definition full_state :: world where
  "full_state =
     full_before
       \<lparr>inodes :=
          (inodes full_before)
            (2 := File True True (take 24 (gzip_stored 1001 (filepath ''big.frag'') [4, 5, 6]))),
        clock_reads := 2,
        stdout := stdout full_before @ [fix_line ''big.frag''],
        opened := opened full_before
          @ [(RB, filepath ''big.frag''), (RB, filepath ''big.frag''),
             (WB, filepath ''big.frag'')]\<rparr>"

text \<open>The world a second run leaves when it starts from the aborted one.\<close>

definition full_second :: world where
  "full_second =
     full_state
       \<lparr>inodes :=
          (inodes full_state)(3 := File True True (gzip_stored 1002 (filepath ''b.frag'') [])),
        clock_reads := 3,
        stdout := stdout full_state
          @ [checking_line, ok_line ''a.frag'', ok_line ''big.frag'',
             fix_line ''b.frag'', compressed_line ''b.frag'', done_line],
        opened := opened full_state
          @ [(RB, filepath ''a.frag''), (RB, filepath ''big.frag''),
             (RB, filepath ''b.frag''), (RB, filepath ''b.frag''), (WB, filepath ''b.frag'')]\<rparr>"

text \<open>A directory with one zero-byte model.\<close>

definition empty_world :: world where
  "empty_world =
     empty_disk
       \<lparr>dirs := (\<lambda>d. Inl FileNotFoundError)(models_dir := Inr [''empty.frag'']),
        paths := [filepath ''empty.frag'' \<mapsto> 1],
        inodes := (\<lambda>i. Dir)(1 := File True True [])\<rparr>"

definition empty_done :: world where
  "empty_done =
     empty_world
       \<lparr>inodes :=
          (inodes empty_world)
            (1 := File True True (gzip_stored 1000 (filepath ''empty.frag'') [])),
        clock_reads := 1,
        stdout := [checking_line, fix_line ''empty.frag'', compressed_line ''empty.frag'', done_line],
        opened := [(RB, filepath ''empty.frag''), (RB, filepath ''empty.frag''),
                   (WB, filepath ''empty.frag'')]\<rparr>"

section \<open>Lemmas\<close>

subsection \<open>The stored-block encoder meets the contract\<close>

lemma le16_decode:
  assumes "n < 65536"
  obtains a b where "le16 n = [a, b]" "unat a + 256 * unat b = n"
proof
  show "le16 n = [of_nat (n mod 256), of_nat (n div 256 mod 256)]"
    by (simp add: le16_def)
  have "unat (of_nat (n mod 256) :: byte) = n mod 256"
    by (simp add: unat_of_nat)
  moreover have "unat (of_nat (n div 256 mod 256) :: byte) = n div 256"
    using assms by (simp add: unat_of_nat)
  ultimately show "unat (of_nat (n mod 256) :: byte) + 256 * unat (of_nat (n div 256 mod 256) :: byte) = n"
    by simp
qed

lemma inflate_stored_block:
  assumes "length chunk \<le> 65535"
  shows "inflate_stored (b # le16 (length chunk) @ le16 (65535 - length chunk) @ chunk @ rest) =
     (if b AND 6 \<noteq> 0 then None
      else if bit b 0 then Some (chunk, rest)
      else (case inflate_stored rest of None \<Rightarrow> None | Some (d, r) \<Rightarrow> Some (chunk @ d, r)))"
proof -
  obtain l0 l1 where l: "le16 (length chunk) = [l0, l1]" "unat l0 + 256 * unat l1 = length chunk"
    using assms by (rule_tac n = "length chunk" in le16_decode) simp_all
  obtain n0 n1 where n: "le16 (65535 - length chunk) = [n0, n1]"
      "unat n0 + 256 * unat n1 = 65535 - length chunk"
    by (rule_tac n = "65535 - length chunk" in le16_decode) simp_all
  show ?thesis
    using assms by (simp add: l n Let_def split: option.split)
qed

lemma inflate_stored_blocks: "inflate_stored (stored_blocks data @ r) = Some (data, r)"
proof (induction data arbitrary: r rule: stored_blocks.induct)
  case (1 data)
  show ?case
  proof (cases "length data \<le> 65535")
    case True
    then have "stored_blocks data @ r = 1 # le16 (length data) @ le16 (65535 - length data) @ data @ r"
      by (subst stored_blocks.simps) simp
    moreover have "inflate_stored (1 # le16 (length data) @ le16 (65535 - length data) @ data @ r)
        = Some (data, r)"
      using True by (subst inflate_stored_block) simp_all
    ultimately show ?thesis by simp
  next
    case False
    let ?c = "take 65535 data"
    let ?rest = "stored_blocks (drop 65535 data) @ r"
    have len: "length ?c = 65535" using False by simp
    have "stored_blocks data = 0 # le16 65535 @ le16 0 @ ?c @ stored_blocks (drop 65535 data)"
      using False by (subst stored_blocks.simps) simp
    then have enc: "stored_blocks data @ r =
            0 # le16 (length ?c) @ le16 (65535 - length ?c) @ ?c @ ?rest"
      by (simp only: len) simp
    have rec: "inflate_stored ?rest = Some (drop 65535 data, r)"
      using False by (intro "1.IH") simp
    have "inflate_stored (0 # le16 (length ?c) @ le16 (65535 - length ?c) @ ?c @ ?rest)
        = Some (?c @ drop 65535 data, r)"
      by (subst inflate_stored_block) (simp_all add: rec)
    with enc show ?thesis by simp
  qed
qed

lemma gunzip_gzip_stored: "gunzip_stored (gzip_stored t p data) = Some data"
  using inflate_stored_blocks [of data "le32 (crc32 data) @ le32 (of_nat (length data))"]
  by (simp add: gunzip_stored_def gzip_stored_def le32_def)

lemma gzip_stored_magic: "take 2 (gzip_stored t p data) = magic"
  by (simp add: gzip_stored_def magic_def)

lemma gzip_stored_contract: "gzip_magic gzip_stored \<and> gzip_roundtrip gzip_stored gunzip_stored"
  by (simp add: gzip_magic_def gzip_roundtrip_def gzip_stored_magic gunzip_gzip_stored)

subsection \<open>One iteration of the loop\<close>

lemma filepath_inj: "filepath a = filepath b \<Longrightarrow> a = b"
  by (cases a; cases b)
    (auto simp: filepath_def os_path_join_def models_dir_def startswith_def endswith_def
      split: if_splits)

lemma filepath_eq_iff [simp]: "filepath a = filepath b \<longleftrightarrow> a = b"
  using filepath_inj by blast

lemma world_of_simps [simp]: "world_of (Inl (e, w)) = w" "world_of (Inr w) = w"
  by (simp_all add: world_of_def)

lemma print_simps [simp]:
  "paths (print l w) = paths w" "inodes (print l w) = inodes w" "dirs (print l w) = dirs w"
  "clock (print l w) = clock w" "clock_reads (print l w) = clock_reads w"
  "fsize_limit (print l w) = fsize_limit w" "free_inode (print l w) = free_inode w"
  "opened (print l w) = opened w" "stdout (print l w) = stdout w @ [l]"
  by (simp_all add: print_def)

lemma files_print [simp]: "files (print l w) = files w"
  by (rule ext) (simp add: files_def)

text \<open>What one iteration does, by what the path of the name resolves to.\<close>

lemma process_file_eval:
  "process_file gz n w =
     (case paths w (filepath n) of
        None \<Rightarrow> Inl (FileNotFoundError, w\<lparr>opened := opened w @ [(RB, filepath n)]\<rparr>)
      | Some i \<Rightarrow>
          (case inodes w i of
             Dir \<Rightarrow> Inl (IsADirectoryError, w\<lparr>opened := opened w @ [(RB, filepath n)]\<rparr>)
           | File r wr c \<Rightarrow>
               if \<not> r
               then Inl (PermissionError, w\<lparr>opened := opened w @ [(RB, filepath n)]\<rparr>)
               else if take 2 c = magic
               then Inr (w\<lparr>opened := opened w @ [(RB, filepath n)],
                           stdout := stdout w @ [ok_line n]\<rparr>)
               else if \<not> wr
               then Inl (PermissionError,
                         w\<lparr>opened := opened w
                              @ [(RB, filepath n), (RB, filepath n), (WB, filepath n)],
                           stdout := stdout w @ [fix_line n]\<rparr>)
               else if fits (fsize_limit w) (gz (clock w (clock_reads w)) (filepath n) c)
               then Inr (w\<lparr>opened := opened w
                              @ [(RB, filepath n), (RB, filepath n), (WB, filepath n)],
                           stdout := stdout w @ [fix_line n, compressed_line n],
                           clock_reads := Suc (clock_reads w),
                           inodes := (inodes w)
                             (i := File True True (gz (clock w (clock_reads w)) (filepath n) c))\<rparr>)
               else Inl (OSError,
                         w\<lparr>opened := opened w
                              @ [(RB, filepath n), (RB, filepath n), (WB, filepath n)],
                           stdout := stdout w @ [fix_line n],
                           clock_reads := Suc (clock_reads w),
                           inodes := (inodes w)
                             (i := File True True
                                (written (fsize_limit w)
                                   (gz (clock w (clock_reads w)) (filepath n) c)))\<rparr>)))"
  by (simp add: process_file_def filepath_def open_rb_def files_def read_def read_all_def
      print_def gzip_open_wb_write_def gzip_write_def Let_def fits_def written_def
      split: option.split node.split)

lemma process_file_cases:
  obtains
    (missing) "paths w (filepath n) = None"
      "process_file gz n w = Inl (FileNotFoundError, w\<lparr>opened := opened w @ [(RB, filepath n)]\<rparr>)"
  | (dir) i where "paths w (filepath n) = Some i" "inodes w i = Dir"
      "process_file gz n w = Inl (IsADirectoryError, w\<lparr>opened := opened w @ [(RB, filepath n)]\<rparr>)"
  | (unreadable) i wr c where "paths w (filepath n) = Some i" "inodes w i = File False wr c"
      "process_file gz n w = Inl (PermissionError, w\<lparr>opened := opened w @ [(RB, filepath n)]\<rparr>)"
  | (ok) i wr c where "paths w (filepath n) = Some i" "inodes w i = File True wr c"
      "take 2 c = magic"
      "process_file gz n w =
         Inr (w\<lparr>opened := opened w @ [(RB, filepath n)], stdout := stdout w @ [ok_line n]\<rparr>)"
  | (readonly) i c where "paths w (filepath n) = Some i" "inodes w i = File True False c"
      "take 2 c \<noteq> magic"
      "process_file gz n w =
         Inl (PermissionError,
              w\<lparr>opened := opened w @ [(RB, filepath n), (RB, filepath n), (WB, filepath n)],
                stdout := stdout w @ [fix_line n]\<rparr>)"
  | (compress) i c where "paths w (filepath n) = Some i" "inodes w i = File True True c"
      "take 2 c \<noteq> magic"
      "fits (fsize_limit w) (gz (clock w (clock_reads w)) (filepath n) c)"
      "process_file gz n w =
         Inr (w\<lparr>opened := opened w @ [(RB, filepath n), (RB, filepath n), (WB, filepath n)],
                stdout := stdout w @ [fix_line n, compressed_line n],
                clock_reads := Suc (clock_reads w),
                inodes := (inodes w)
                  (i := File True True (gz (clock w (clock_reads w)) (filepath n) c))\<rparr>)"
  | (cut) i c where "paths w (filepath n) = Some i" "inodes w i = File True True c"
      "take 2 c \<noteq> magic"
      "\<not> fits (fsize_limit w) (gz (clock w (clock_reads w)) (filepath n) c)"
      "process_file gz n w =
         Inl (OSError,
              w\<lparr>opened := opened w @ [(RB, filepath n), (RB, filepath n), (WB, filepath n)],
                stdout := stdout w @ [fix_line n],
                clock_reads := Suc (clock_reads w),
                inodes := (inodes w)
                  (i := File True True
                     (written (fsize_limit w) (gz (clock w (clock_reads w)) (filepath n) c)))\<rparr>)"
proof (cases "paths w (filepath n)")
  case None
  then have "process_file gz n w
      = Inl (FileNotFoundError, w\<lparr>opened := opened w @ [(RB, filepath n)]\<rparr>)"
    by (simp add: process_file_eval)
  with None show ?thesis by (rule missing)
next
  case (Some i)
  show ?thesis
  proof (cases "inodes w i")
    case Dir
    with Some have "process_file gz n w
        = Inl (IsADirectoryError, w\<lparr>opened := opened w @ [(RB, filepath n)]\<rparr>)"
      by (simp add: process_file_eval)
    with Some Dir show ?thesis by (rule dir)
  next
    case (File r wr c)
    show ?thesis
    proof (cases r)
      case False
      with File have f: "inodes w i = File False wr c" by simp
      with Some have "process_file gz n w
          = Inl (PermissionError, w\<lparr>opened := opened w @ [(RB, filepath n)]\<rparr>)"
        by (simp add: process_file_eval)
      with Some f show ?thesis by (rule unreadable)
    next
      case True
      with File have f: "inodes w i = File True wr c" by simp
      show ?thesis
      proof (cases "take 2 c = magic")
        case True
        with Some f have "process_file gz n w =
           Inr (w\<lparr>opened := opened w @ [(RB, filepath n)], stdout := stdout w @ [ok_line n]\<rparr>)"
          by (simp add: process_file_eval)
        with Some f True show ?thesis by (rule ok)
      next
        case nomagic: False
        show ?thesis
        proof (cases wr)
          case False
          with f have f': "inodes w i = File True False c" by simp
          with Some nomagic have "process_file gz n w =
             Inl (PermissionError,
              w\<lparr>opened := opened w @ [(RB, filepath n), (RB, filepath n), (WB, filepath n)],
                stdout := stdout w @ [fix_line n]\<rparr>)"
            by (simp add: process_file_eval)
          with Some f' nomagic show ?thesis by (rule readonly)
        next
          case True
          with f have f': "inodes w i = File True True c" by simp
          show ?thesis
          proof (cases "fits (fsize_limit w) (gz (clock w (clock_reads w)) (filepath n) c)")
            case True
            with Some f' nomagic have "process_file gz n w =
               Inr (w\<lparr>opened := opened w @ [(RB, filepath n), (RB, filepath n), (WB, filepath n)],
                  stdout := stdout w @ [fix_line n, compressed_line n],
                  clock_reads := Suc (clock_reads w),
                  inodes := (inodes w)
                    (i := File True True (gz (clock w (clock_reads w)) (filepath n) c))\<rparr>)"
              by (simp add: process_file_eval)
            with Some f' nomagic True show ?thesis by (rule compress)
          next
            case False
            with Some f' nomagic have "process_file gz n w =
               Inl (OSError,
                w\<lparr>opened := opened w @ [(RB, filepath n), (RB, filepath n), (WB, filepath n)],
                  stdout := stdout w @ [fix_line n],
                  clock_reads := Suc (clock_reads w),
                  inodes := (inodes w)
                    (i := File True True
                       (written (fsize_limit w) (gz (clock w (clock_reads w)) (filepath n) c)))\<rparr>)"
              by (simp add: process_file_eval)
            with Some f' nomagic False show ?thesis by (rule cut)
          qed
        qed
      qed
    qed
  qed
qed

lemma process_file_env:
  "paths (world_of (process_file gz n w)) = paths w"
  "dirs (world_of (process_file gz n w)) = dirs w"
  "clock (world_of (process_file gz n w)) = clock w"
  "fsize_limit (world_of (process_file gz n w)) = fsize_limit w"
  by (cases rule: process_file_cases [of w n gz]; simp)+

lemma process_file_inodes_frame:
  "paths w (filepath n) \<noteq> Some i \<Longrightarrow> inodes (world_of (process_file gz n w)) i = inodes w i"
  by (cases rule: process_file_cases [of w n gz]) auto

lemma process_file_keeps_magic_inode:
  "inodes w i = File r wr c \<Longrightarrow> take 2 c = magic \<Longrightarrow>
     inodes (world_of (process_file gz n w)) i = File r wr c"
  by (cases rule: process_file_cases [of w n gz]) auto

lemma process_file_keeps_magic:
  assumes "files w q = Some (File r wr c)" "take 2 c = magic"
  shows "files (world_of (process_file gz n w)) q = Some (File r wr c)"
proof -
  from assms(1) obtain i where i: "paths w q = Some i" "inodes w i = File r wr c"
    by (auto simp: files_def)
  from process_file_keeps_magic_inode [OF i(2) assms(2), of gz n] i(1) show ?thesis
    by (simp add: files_def process_file_env)
qed

lemma process_file_frame:
  assumes "\<not> same_file w (filepath n) q"
  shows "files (world_of (process_file gz n w)) q = files w q"
proof (cases "paths w q")
  case None
  then show ?thesis by (simp add: files_def process_file_env)
next
  case (Some i)
  with assms have "paths w (filepath n) \<noteq> Some i"
    by (auto simp: same_file_def split: option.splits)
  from process_file_inodes_frame [OF this, of gz] Some show ?thesis
    by (simp add: files_def process_file_env)
qed

lemma process_file_opened:
  "\<exists>evs. opened (world_of (process_file gz n w)) = opened w @ evs \<and> snd ` set evs \<subseteq> {filepath n}"
  by (cases rule: process_file_cases [of w n gz]) simp_all

lemma process_file_fixes:
  assumes "process_file gz n w = Inr w'"
  shows "\<exists>i wr c. paths w (filepath n) = Some i \<and> inodes w i = File True wr c
           \<and> inodes w' = (inodes w)
                (i := File True wr
                   (if take 2 c = magic then c
                    else gz (clock w (clock_reads w)) (filepath n) c))
           \<and> (take 2 c \<noteq> magic \<longrightarrow> wr)"
proof (cases rule: process_file_cases [of w n gz])
  case (ok i wr c)
  with assms have "inodes w' = inodes w" by auto
  with ok have "paths w (filepath n) = Some i \<and> inodes w i = File True wr c
           \<and> inodes w' = (inodes w)
                (i := File True wr
                   (if take 2 c = magic then c
                    else gz (clock w (clock_reads w)) (filepath n) c))
           \<and> (take 2 c \<noteq> magic \<longrightarrow> wr)"
    by (simp add: fun_upd_idem)
  then show ?thesis by blast
next
  case (compress i c)
  with assms have "inodes w' = (inodes w)
      (i := File True True (gz (clock w (clock_reads w)) (filepath n) c))" by auto
  with compress have "paths w (filepath n) = Some i \<and> inodes w i = File True True c
           \<and> inodes w' = (inodes w)
                (i := File True True
                   (if take 2 c = magic then c
                    else gz (clock w (clock_reads w)) (filepath n) c))
           \<and> (take 2 c \<noteq> magic \<longrightarrow> True)"
    by simp
  then show ?thesis by blast
qed (use assms in simp_all)

lemma process_file_stdout_exact:
  assumes "process_file gz n w = Inr w'"
  shows "stdout w' = stdout w @ report (gzipped w (filepath n)) n"
  using assms
  by (cases rule: process_file_cases [of w n gz]) (auto simp: gzipped_def files_def report_def)

lemma process_file_stdout:
  assumes "process_file gz n w = Inr w'"
  shows "\<exists>b. stdout w' = stdout w @ report b n"
  using process_file_stdout_exact [OF assms] by blast

lemma process_file_Inl:
  assumes "process_file gz n w = Inl (e, w')"
  shows "(e \<noteq> OSError \<longrightarrow> inodes w' = inodes w)
       \<and> (\<exists>ls. stdout w' = stdout w @ ls \<and> set ls \<subseteq> {fix_line n})"
  using assms by (cases rule: process_file_cases [of w n gz]) auto

lemma process_file_Inr_opened:
  assumes "process_file gz n w = Inr w'"
  shows "\<exists>evs. opened w' = opened w @ evs \<and> snd ` set evs = {filepath n}"
proof (cases rule: process_file_cases [of w n gz])
  case (ok i wr c)
  with assms have "opened w' = opened w @ [(RB, filepath n)]" by auto
  then show ?thesis by simp
next
  case (compress i c)
  with assms have "opened w' = opened w @ [(RB, filepath n), (RB, filepath n), (WB, filepath n)]"
    by auto
  then show ?thesis by simp
qed (use assms in simp_all)

lemma gzipped_process_file:
  "gzipped w q \<Longrightarrow> gzipped (world_of (process_file gz n w)) q"
  using process_file_keeps_magic [of w q _ _ _ gz n]
  by (auto simp: gzipped_def split: option.splits node.splits)

lemma process_file_no_write:
  assumes "gzipped w q"
  shows "\<exists>evs. opened (world_of (process_file gz n w)) = opened w @ evs \<and> (WB, q) \<notin> set evs"
proof (cases "q = filepath n")
  case True
  with assms show ?thesis
    by (cases rule: process_file_cases [of w n gz]) (simp_all add: gzipped_def files_def)
next
  case False
  obtain evs where "opened (world_of (process_file gz n w)) = opened w @ evs"
      "snd ` set evs \<subseteq> {filepath n}"
    using process_file_opened [of gz n w] by blast
  with False have "opened (world_of (process_file gz n w)) = opened w @ evs \<and> (WB, q) \<notin> set evs"
    by force
  then show ?thesis ..
qed


subsection \<open>The loop\<close>

lemma for_loop_append:
  "for_loop gz (xs @ ys) w =
     (case for_loop gz xs w of Inl x \<Rightarrow> Inl x | Inr w' \<Rightarrow> for_loop gz ys w')"
  by (induction xs arbitrary: w) (auto split: sum.splits)

lemma for_loop_step:
  assumes "endswith m ''.frag''"
  shows "world_of (for_loop gz (m # names) w) =
     (case process_file gz m w of
        Inl x \<Rightarrow> world_of (process_file gz m w)
      | Inr w1 \<Rightarrow> world_of (for_loop gz names w1))"
  using assms by (auto split: sum.splits)

text \<open>
  An invariant of the loop: a property of worlds that every iteration preserves holds of
  the world the loop leaves, however it ends.
\<close>

lemma for_loop_invariant:
  assumes "P w" and "\<And>n v. endswith n ''.frag'' \<Longrightarrow> P v \<Longrightarrow> P (world_of (process_file gz n v))"
  shows "P (world_of (for_loop gz names w))"
  using assms(1)
proof (induction names arbitrary: w)
  case Nil
  then show ?case by simp
next
  case (Cons m names)
  show ?case
  proof (cases "endswith m ''.frag''")
    case False
    with Cons show ?thesis by simp
  next
    case True
    from assms(2) [OF True Cons.prems] have p: "P (world_of (process_file gz m w))" .
    show ?thesis
    proof (cases "process_file gz m w")
      case (Inl x)
      with True p show ?thesis by simp
    next
      case (Inr w1)
      with p have "P w1" by simp
      from Cons.IH [OF this] Inr True show ?thesis by simp
    qed
  qed
qed

lemma for_loop_env:
  "paths (world_of (for_loop gz names w)) = paths w"
  "dirs (world_of (for_loop gz names w)) = dirs w"
  "clock (world_of (for_loop gz names w)) = clock w"
  "fsize_limit (world_of (for_loop gz names w)) = fsize_limit w"
proof -
  have "paths (world_of (for_loop gz names w)) = paths w
      \<and> dirs (world_of (for_loop gz names w)) = dirs w
      \<and> clock (world_of (for_loop gz names w)) = clock w
      \<and> fsize_limit (world_of (for_loop gz names w)) = fsize_limit w"
    by (rule for_loop_invariant [where P = "\<lambda>v. paths v = paths w \<and> dirs v = dirs w
          \<and> clock v = clock w \<and> fsize_limit v = fsize_limit w"])
      (simp_all add: process_file_env)
  then show "paths (world_of (for_loop gz names w)) = paths w"
    "dirs (world_of (for_loop gz names w)) = dirs w"
    "clock (world_of (for_loop gz names w)) = clock w"
    "fsize_limit (world_of (for_loop gz names w)) = fsize_limit w"
    by simp_all
qed

lemma for_loop_keeps_magic_inode:
  assumes "inodes w i = File r wr c" "take 2 c = magic"
  shows "inodes (world_of (for_loop gz names w)) i = File r wr c"
  by (rule for_loop_invariant [where P = "\<lambda>v. inodes v i = File r wr c"])
    (simp_all add: assms process_file_keeps_magic_inode)

lemma for_loop_keeps_magic:
  assumes "files w q = Some (File r wr c)" "take 2 c = magic"
  shows "files (world_of (for_loop gz names w)) q = Some (File r wr c)"
proof -
  from assms(1) obtain i where i: "paths w q = Some i" "inodes w i = File r wr c"
    by (auto simp: files_def)
  from for_loop_keeps_magic_inode [OF i(2) assms(2), of gz names] i(1) show ?thesis
    by (simp add: files_def for_loop_env)
qed

lemma for_loop_inodes_frame:
  "\<forall>n\<in>set (candidates names). paths w (filepath n) \<noteq> Some i \<Longrightarrow>
     inodes (world_of (for_loop gz names w)) i = inodes w i"
proof (induction names arbitrary: w)
  case Nil
  show ?case by simp
next
  case (Cons m names)
  show ?case
  proof (cases "endswith m ''.frag''")
    case False
    with Cons show ?thesis by (simp add: candidates_def)
  next
    case True
    with Cons.prems have q: "paths w (filepath m) \<noteq> Some i"
        "\<forall>n\<in>set (candidates names). paths w (filepath n) \<noteq> Some i"
      by (auto simp: candidates_def)
    note fr = process_file_inodes_frame [OF q(1), of gz]
    show ?thesis
    proof (cases "process_file gz m w")
      case (Inl x)
      with True fr show ?thesis by simp
    next
      case (Inr w1)
      with process_file_env(1) [of gz m w] have "paths w1 = paths w" by simp
      with q(2) have "\<forall>n\<in>set (candidates names). paths w1 (filepath n) \<noteq> Some i" by simp
      from Cons.IH [OF this] Inr True fr show ?thesis by simp
    qed
  qed
qed

lemma for_loop_frame:
  assumes "\<forall>n\<in>set (candidates names). \<not> same_file w (filepath n) q"
  shows "files (world_of (for_loop gz names w)) q = files w q"
proof (cases "paths w q")
  case None
  then show ?thesis by (simp add: files_def for_loop_env)
next
  case (Some i)
  with assms have "\<forall>n\<in>set (candidates names). paths w (filepath n) \<noteq> Some i"
    by (auto simp: same_file_def split: option.splits)
  from for_loop_inodes_frame [OF this, of gz] Some show ?thesis
    by (simp add: files_def for_loop_env)
qed

lemma for_loop_opened:
  "\<exists>evs. opened (world_of (for_loop gz names w)) = opened w @ evs
         \<and> snd ` set evs \<subseteq> filepath ` set (candidates names)"
proof (induction names arbitrary: w)
  case Nil
  show ?case by simp
next
  case (Cons n names)
  show ?case
  proof (cases "endswith n ''.frag''")
    case False
    with Cons [of w] show ?thesis by (simp add: candidates_def)
  next
    case True
    obtain evs where evs: "opened (world_of (process_file gz n w)) = opened w @ evs"
        "snd ` set evs \<subseteq> {filepath n}"
      using process_file_opened [of gz n w] by blast
    show ?thesis
    proof (cases "process_file gz n w")
      case (Inl x)
      with True evs show ?thesis by (auto simp: candidates_def)
    next
      case (Inr w1)
      obtain evs' where evs': "opened (world_of (for_loop gz names w1)) = opened w1 @ evs'"
        "snd ` set evs' \<subseteq> filepath ` set (candidates names)"
        using Cons [of w1] by blast
      from Inr True evs evs'
      have "opened (world_of (for_loop gz (n # names) w)) = opened w @ (evs @ evs')"
        by simp
      moreover from True evs evs'
      have "snd ` set (evs @ evs') \<subseteq> filepath ` set (candidates (n # names))"
        by (auto simp: candidates_def)
      ultimately show ?thesis by blast
    qed
  qed
qed

lemma for_loop_fixes:
  assumes "gzip_magic gz"
  shows "for_loop gz names w = Inr w' \<Longrightarrow> n \<in> set names \<Longrightarrow> endswith n ''.frag'' \<Longrightarrow>
     \<exists>i wr c c'. paths w (filepath n) = Some i \<and> inodes w i = File True wr c
           \<and> inodes w' i = File True wr c'
           \<and> (if take 2 c = magic then c' = c else \<exists>t p. c' = gz t p c)
           \<and> (take 2 c \<noteq> magic \<longrightarrow> wr)"
proof (induction names arbitrary: w)
  case Nil
  then show ?case by simp
next
  case (Cons m names)
  show ?case
  proof (cases "endswith m ''.frag''")
    case False
    with Cons.prems have "for_loop gz names w = Inr w'" "n \<in> set names" by auto
    from Cons.IH [OF this Cons.prems(3)] show ?thesis .
  next
    case True
    with Cons.prems(1) obtain w1 where w1: "process_file gz m w = Inr w1"
        and rest: "for_loop gz names w1 = Inr w'"
      by (auto split: sum.splits)
    from process_file_env(1) [of gz m w] w1 have pw1: "paths w1 = paths w" by simp
    from process_file_fixes [OF w1] obtain i wr c where
      f: "paths w (filepath m) = Some i" "inodes w i = File True wr c"
        "inodes w1 = (inodes w)
           (i := File True wr (if take 2 c = magic then c
                               else gz (clock w (clock_reads w)) (filepath m) c))"
        "take 2 c \<noteq> magic \<longrightarrow> wr"
      by blast
    let ?c = "if take 2 c = magic then c else gz (clock w (clock_reads w)) (filepath m) c"
    show ?thesis
    proof (cases "paths w (filepath n) = Some i")
      case True
      have mg: "take 2 ?c = magic" using assms by (simp add: gzip_magic_def)
      from f(3) have "inodes w1 i = File True wr ?c" by simp
      from for_loop_keeps_magic_inode [OF this mg, of gz names] rest
      have "inodes w' i = File True wr ?c" by simp
      moreover have "if take 2 c = magic then ?c = c else \<exists>t p. ?c = gz t p c"
        by auto
      ultimately show ?thesis using True f(1,2,4) by blast
    next
      case False
      with f(1) have "n \<noteq> m" by auto
      with Cons.prems have "n \<in> set names" by simp
      from Cons.IH [OF rest this Cons.prems(3)] obtain j wr' d d' where
        g: "paths w1 (filepath n) = Some j" "inodes w1 j = File True wr' d"
          "inodes w' j = File True wr' d'"
          "if take 2 d = magic then d' = d else \<exists>t p. d' = gz t p d"
          "take 2 d \<noteq> magic \<longrightarrow> wr'"
        by blast
      from g(1) pw1 False have "j \<noteq> i" by auto
      with f(3) g(2) have "inodes w j = File True wr' d" by simp
      with g pw1 show ?thesis by auto
    qed
  qed
qed

lemma for_loop_stdout:
  "for_loop gz names w = Inr w' \<Longrightarrow>
     \<exists>bs. length bs = length (candidates names)
        \<and> stdout w' = stdout w @ concat (map2 report bs (candidates names))"
proof (induction names arbitrary: w)
  case Nil
  then show ?case by (simp add: candidates_def)
next
  case (Cons m names)
  show ?case
  proof (cases "endswith m ''.frag''")
    case False
    with Cons show ?thesis by (simp add: candidates_def)
  next
    case True
    with Cons.prems obtain w1 where w1: "process_file gz m w = Inr w1"
        and rest: "for_loop gz names w1 = Inr w'"
      by (auto split: sum.splits)
    from process_file_stdout [OF w1] obtain b where b: "stdout w1 = stdout w @ report b m" ..
    from Cons.IH [OF rest] obtain bs where bs: "length bs = length (candidates names)"
        "stdout w' = stdout w1 @ concat (map2 report bs (candidates names))"
      by blast
    from True b bs have "length (b # bs) = length (candidates (m # names))
        \<and> stdout w' = stdout w @ concat (map2 report (b # bs) (candidates (m # names)))"
      by (simp add: candidates_def)
    then show ?thesis by blast
  qed
qed



lemma for_loop_Inl:
  "for_loop gz names w = Inl (e, w') \<Longrightarrow>
     \<exists>pre n post w1. names = pre @ n # post \<and> endswith n ''.frag''
        \<and> for_loop gz pre w = Inr w1 \<and> process_file gz n w1 = Inl (e, w')"
proof (induction names arbitrary: w)
  case Nil
  then show ?case by simp
next
  case (Cons m names)
  show ?case
  proof (cases "endswith m ''.frag''")
    case False
    with Cons.prems have "for_loop gz names w = Inl (e, w')" by simp
    from Cons.IH [OF this] obtain pre n post w1 where
      "names = pre @ n # post" "endswith n ''.frag''" "for_loop gz pre w = Inr w1"
      "process_file gz n w1 = Inl (e, w')" by blast
    with False have "m # names = (m # pre) @ n # post \<and> endswith n ''.frag''
        \<and> for_loop gz (m # pre) w = Inr w1 \<and> process_file gz n w1 = Inl (e, w')" by simp
    then show ?thesis by blast
  next
    case True
    show ?thesis
    proof (cases "process_file gz m w")
      case (Inl x)
      with True Cons.prems have "process_file gz m w = Inl (e, w')" by simp
      with True have "m # names = [] @ m # names \<and> endswith m ''.frag''
        \<and> for_loop gz [] w = Inr w \<and> process_file gz m w = Inl (e, w')" by simp
      then show ?thesis by blast
    next
      case (Inr w0)
      with True Cons.prems have "for_loop gz names w0 = Inl (e, w')" by simp
      from Cons.IH [OF this] obtain pre n post w1 where
        "names = pre @ n # post" "endswith n ''.frag''" "for_loop gz pre w0 = Inr w1"
        "process_file gz n w1 = Inl (e, w')" by blast
      with True Inr have "m # names = (m # pre) @ n # post \<and> endswith n ''.frag''
        \<and> for_loop gz (m # pre) w = Inr w1 \<and> process_file gz n w1 = Inl (e, w')" by simp
      then show ?thesis by blast
    qed
  qed
qed

lemma for_loop_no_write:
  "gzipped w q \<Longrightarrow>
     \<exists>evs. opened (world_of (for_loop gz names w)) = opened w @ evs \<and> (WB, q) \<notin> set evs"
proof (induction names arbitrary: w)
  case Nil
  show ?case by simp
next
  case (Cons m names)
  show ?case
  proof (cases "endswith m ''.frag''")
    case False
    with Cons show ?thesis by simp
  next
    case True
    obtain evs where evs: "opened (world_of (process_file gz m w)) = opened w @ evs"
        "(WB, q) \<notin> set evs"
      using process_file_no_write [OF Cons.prems, of gz m] by blast
    show ?thesis
    proof (cases "process_file gz m w")
      case (Inl x)
      with True evs show ?thesis by simp
    next
      case (Inr w1)
      with gzipped_process_file [OF Cons.prems, of gz m] have "gzipped w1 q" by simp
      from Cons.IH [OF this] obtain evs' where
        "opened (world_of (for_loop gz names w1)) = opened w1 @ evs'" "(WB, q) \<notin> set evs'"
        by blast
      with Inr True evs have "opened (world_of (for_loop gz (m # names) w)) = opened w @ (evs @ evs')
          \<and> (WB, q) \<notin> set (evs @ evs')" by simp
      then show ?thesis by blast
    qed
  qed
qed

lemma for_loop_stdout_mono:
  "for_loop gz names w = Inr w' \<Longrightarrow> \<exists>ls. stdout w' = stdout w @ ls"
  using for_loop_stdout by blast

lemma for_loop_ok_line:
  "for_loop gz names w = Inr w' \<Longrightarrow> n \<in> set names \<Longrightarrow> endswith n ''.frag'' \<Longrightarrow>
   gzipped w (filepath n) \<Longrightarrow> \<exists>ls. stdout w' = stdout w @ ls \<and> ok_line n \<in> set ls"
proof (induction names arbitrary: w)
  case Nil
  then show ?case by simp
next
  case (Cons m names)
  show ?case
  proof (cases "endswith m ''.frag''")
    case False
    with Cons.prems have "for_loop gz names w = Inr w'" "n \<in> set names" by auto
    from Cons.IH [OF this Cons.prems(3,4)] show ?thesis .
  next
    case True
    with Cons.prems(1) obtain w1 where w1: "process_file gz m w = Inr w1"
        and rest: "for_loop gz names w1 = Inr w'"
      by (auto split: sum.splits)
    show ?thesis
    proof (cases "n = m")
      case True
      with Cons.prems(4) process_file_stdout_exact [OF w1]
      have "stdout w1 = stdout w @ [ok_line n]" by (simp add: report_def)
      moreover from for_loop_stdout_mono [OF rest] obtain ls where "stdout w' = stdout w1 @ ls" ..
      ultimately have "stdout w' = stdout w @ (ok_line n # ls) \<and> ok_line n \<in> set (ok_line n # ls)"
        by simp
      then show ?thesis by blast
    next
      case False
      with Cons.prems have n: "n \<in> set names" by simp
      from gzipped_process_file [OF Cons.prems(4), of gz m] w1 have "gzipped w1 (filepath n)" by simp
      from Cons.IH [OF rest n Cons.prems(3) this] obtain ls where
        ls: "stdout w' = stdout w1 @ ls" "ok_line n \<in> set ls" by blast
      from process_file_stdout [OF w1] obtain b where "stdout w1 = stdout w @ report b m" ..
      with ls have "stdout w' = stdout w @ (report b m @ ls) \<and> ok_line n \<in> set (report b m @ ls)"
        by simp
      then show ?thesis by blast
    qed
  qed
qed

lemma for_loop_opened_exact:
  "for_loop gz names w = Inr w' \<Longrightarrow>
     \<exists>evs. opened w' = opened w @ evs \<and> snd ` set evs = filepath ` set (candidates names)"
proof (induction names arbitrary: w)
  case Nil
  then show ?case by (simp add: candidates_def)
next
  case (Cons m names)
  show ?case
  proof (cases "endswith m ''.frag''")
    case False
    with Cons show ?thesis by (simp add: candidates_def)
  next
    case True
    with Cons.prems(1) obtain w1 where w1: "process_file gz m w = Inr w1"
        and rest: "for_loop gz names w1 = Inr w'"
      by (auto split: sum.splits)
    from process_file_Inr_opened [OF w1] obtain evs where
      evs: "opened w1 = opened w @ evs" "snd ` set evs = {filepath m}" by blast
    from Cons.IH [OF rest] obtain evs' where
      evs': "opened w' = opened w1 @ evs'" "snd ` set evs' = filepath ` set (candidates names)" by blast
    from True evs evs' have "opened w' = opened w @ (evs @ evs')
        \<and> snd ` set (evs @ evs') = filepath ` set (candidates (m # names))"
      by (simp add: candidates_def image_Un)
    then show ?thesis by blast
  qed
qed

lemma gzipped_frame:
  assumes "process_file gz m w = Inr w1" "paths w (filepath n) \<noteq> paths w (filepath m)"
  shows "gzipped w1 (filepath n) = gzipped w (filepath n)"
proof -
  from assms(2) have "\<not> same_file w (filepath m) (filepath n)"
    by (auto simp: same_file_def split: option.splits)
  from process_file_frame [OF this, of gz] assms(1) show ?thesis by (simp add: gzipped_def)
qed

lemma for_loop_stdout_exact:
  "distinct (map (\<lambda>n. paths w (filepath n)) (candidates names)) \<Longrightarrow>
   for_loop gz names w = Inr w' \<Longrightarrow>
     stdout w' = stdout w @ concat (map (\<lambda>n. report (gzipped w (filepath n)) n) (candidates names))"
proof (induction names arbitrary: w)
  case Nil
  then show ?case by (simp add: candidates_def)
next
  case (Cons m names)
  show ?case
  proof (cases "endswith m ''.frag''")
    case False
    with Cons show ?thesis by (simp add: candidates_def)
  next
    case True
    with Cons.prems obtain w1 where w1: "process_file gz m w = Inr w1"
        and rest: "for_loop gz names w1 = Inr w'"
      by (auto split: sum.splits)
    from process_file_env(1) [of gz m w] w1 have pw1: "paths w1 = paths w" by simp
    from True Cons.prems(1) have d: "distinct (map (\<lambda>n. paths w (filepath n)) (candidates names))"
        "paths w (filepath m) \<notin> (\<lambda>n. paths w (filepath n)) ` set (candidates names)"
      by (simp_all add: candidates_def)
    have eq: "map (\<lambda>n. report (gzipped w1 (filepath n)) n) (candidates names)
        = map (\<lambda>n. report (gzipped w (filepath n)) n) (candidates names)"
    proof (rule map_cong [OF refl])
      fix n assume "n \<in> set (candidates names)"
      then have "paths w (filepath n) \<in> (\<lambda>n. paths w (filepath n)) ` set (candidates names)"
        by (rule imageI)
      with d(2) have "paths w (filepath n) \<noteq> paths w (filepath m)" by auto
      with gzipped_frame [OF w1] show "report (gzipped w1 (filepath n)) n = report (gzipped w (filepath n)) n"
        by simp
    qed
    from d(1) pw1 have "distinct (map (\<lambda>n. paths w1 (filepath n)) (candidates names))" by simp
    from Cons.IH [OF this rest] have "stdout w' = stdout w1
        @ concat (map (\<lambda>n. report (gzipped w1 (filepath n)) n) (candidates names))" .
    then have "stdout w' = stdout w1
        @ concat (map (\<lambda>n. report (gzipped w (filepath n)) n) (candidates names))"
      by (simp only: eq)
    moreover have "candidates (m # names) = m # candidates names"
      using True by (simp add: candidates_def)
    ultimately show ?thesis using process_file_stdout_exact [OF w1] by simp
  qed
qed

lemma done_line_not_report: "done_line \<notin> set (report b n)"
  by (simp add: report_def done_line_def ok_line_def fix_line_def compressed_line_def)

lemma done_line_not_reports: "done_line \<notin> set (concat (map2 report bs ns))"
  using done_line_not_report by (auto simp: set_zip)

lemma done_line_not_checking: "done_line \<noteq> checking_line"
  by (simp add: done_line_def checking_line_def)

lemma done_line_not_fix: "done_line \<noteq> fix_line n"
  by (simp add: done_line_def fix_line_def)

subsection \<open>The whole run\<close>

lemma main_failed_listing:
  "dirs w models_dir = Inl e \<Longrightarrow> main gz w = Inl (e, print checking_line w)"
  by (simp add: main_def os_listdir_def)

lemma main_listed:
  "dirs w models_dir = Inr names \<Longrightarrow>
     main gz w = (case for_loop gz names (print checking_line w) of
                    Inl x \<Rightarrow> Inl x
                  | Inr w1 \<Rightarrow> Inr (print done_line w1))"
  by (simp add: main_def os_listdir_def)

lemma main_Inr:
  assumes "main gz w = Inr w'"
  obtains names w1 where "dirs w models_dir = Inr names"
    "for_loop gz names (print checking_line w) = Inr w1" "w' = print done_line w1"
proof (cases "dirs w models_dir")
  case (Inl e)
  with assms show ?thesis by (simp add: main_failed_listing)
next
  case (Inr names)
  with assms that show ?thesis by (auto simp: main_listed split: sum.splits)
qed

lemma main_world_of_failed_listing:
  "dirs w models_dir = Inl e \<Longrightarrow> world_of (main gz w) = print checking_line w"
  by (simp add: main_failed_listing)

lemma main_world_of_listed:
  assumes "dirs w models_dir = Inr names"
  shows "inodes (world_of (main gz w)) = inodes (world_of (for_loop gz names (print checking_line w)))"
    and "paths (world_of (main gz w)) = paths w"
    and "opened (world_of (main gz w)) = opened (world_of (for_loop gz names (print checking_line w)))"
    and "dirs (world_of (main gz w)) = dirs w"
    and "files (world_of (main gz w)) = files (world_of (for_loop gz names (print checking_line w)))"
proof -
  let ?r = "for_loop gz names (print checking_line w)"
  from assms have key: "world_of (main gz w) = world_of ?r
      \<or> world_of (main gz w) = print done_line (world_of ?r)"
    by (auto simp: main_listed split: sum.splits)
  from key show a: "inodes (world_of (main gz w)) = inodes (world_of ?r)" by auto
  from key have "paths (world_of (main gz w)) = paths (world_of ?r)" by auto
  then show b: "paths (world_of (main gz w)) = paths w" by (simp add: for_loop_env)
  from key show "opened (world_of (main gz w)) = opened (world_of ?r)" by auto
  from key have "dirs (world_of (main gz w)) = dirs (world_of ?r)" by auto
  then show "dirs (world_of (main gz w)) = dirs w" by (simp add: for_loop_env)
  show "files (world_of (main gz w)) = files (world_of ?r)"
    by (rule ext) (simp add: files_def a b for_loop_env)
qed

subsection \<open>Runs on the example worlds\<close>

lemma length_gzip_stored:
  "length data \<le> 65535 \<Longrightarrow> length (gzip_stored t p data) = 23 + length data"
  by (simp add: gzip_stored_def le32_def le16_def stored_blocks.simps [of data])

lemma gzip_stored_mtime: "gzip_stored 1000 p data \<noteq> gzip_stored 1001 p data"
  by (simp add: gzip_stored_def le32_def)

lemmas example_defs =
  empty_disk_def endswith_def magic_def print_def fits_def written_def length_gzip_stored

lemma main_scenario: "main gzip_stored scenario_world = Inr scenario_done"
  by (simp add: main_listed scenario_world_def scenario_done_def scenario_names_def
      plain_text_data_def process_file_eval example_defs)

lemma main_scenario_reversed: "main gzip_stored scenario_reversed = Inr scenario_reversed_done"
  by (simp add: main_listed scenario_reversed_def scenario_reversed_done_def scenario_world_def
      scenario_names_def plain_text_data_def process_file_eval example_defs)

lemma main_link: "main gzip_stored link_world = Inr link_done"
  by (simp add: main_listed link_world_def link_done_def process_file_eval example_defs)

lemma main_abort: "main gzip_stored abort_world = Inl (PermissionError, abort_state)"
  by (simp add: main_listed abort_world_def abort_state_def process_file_eval example_defs)

lemma main_empty: "main gzip_stored empty_world = Inr empty_done"
  by (simp add: main_listed empty_world_def empty_done_def process_file_eval example_defs)

lemma loop_full_before:
  "for_loop gzip_stored [''a.frag''] (print checking_line full_world) = Inr full_before"
  by (simp add: full_world_def full_before_def process_file_eval example_defs)

lemma process_full:
  "process_file gzip_stored ''big.frag'' full_before = Inl (OSError, full_state)"
  by (simp add: full_state_def full_world_def full_before_def process_file_eval example_defs)

text \<open>
  After a write that was cut short the file starts with the magic number, so a second run
  takes it for compressed and goes on to the files the first run did not reach.
\<close>

lemma main_full: "main gzip_stored full_world = Inl (OSError, full_state)"
  by (simp add: main_listed full_world_def full_state_def full_before_def process_file_eval
      example_defs)

lemma main_full_second: "main gzip_stored full_state = Inr full_second"
  by (simp add: main_listed full_second_def full_state_def full_before_def full_world_def
      process_file_eval example_defs gzip_stored_magic [unfolded magic_def])

lemma cut_write_second_run_differs:
  "files full_second (filepath ''b.frag'') \<noteq> files full_state (filepath ''b.frag'')"
  by (simp add: full_second_def full_state_def full_before_def full_world_def empty_disk_def
      files_def gzip_stored_def)

subsection \<open>Further facts about runs\<close>

lemma files_updates [simp]:
  "files (w\<lparr>opened := a\<rparr>) = files w" "files (w\<lparr>stdout := b\<rparr>) = files w"
  "files (w\<lparr>clock_reads := k\<rparr>) = files w"
  by (rule ext, simp add: files_def)+

lemma main_Inr_loop:
  assumes "main gz w = Inr w'" "dirs w models_dir = Inr names"
  obtains w1 where "for_loop gz names (print checking_line w) = Inr w1" "w' = print done_line w1"
    "paths w1 = paths w"
proof -
  from assms obtain w1 where loop: "for_loop gz names (print checking_line w) = Inr w1"
      and w': "w' = print done_line w1"
    by (auto simp: main_listed split: sum.splits)
  from for_loop_env(1) [of gz names "print checking_line w"] loop have "paths w1 = paths w"
    by simp
  with loop w' that show ?thesis by blast
qed

lemma same_file_print [simp]: "same_file (print l w) p q = same_file w p q"
  by (cases "paths w p") (simp_all add: same_file_def)

lemma same_file_paths: "paths v = paths w \<Longrightarrow> same_file v p q = same_file w p q"
  by (cases "paths w p") (simp_all add: same_file_def)

lemma for_loop_inode_result:
  assumes "gzip_magic gz" "for_loop gz names w = Inr w'"
  shows "if \<exists>n\<in>set (candidates names). paths w (filepath n) = Some i
         then \<exists>wr c c'. inodes w i = File True wr c \<and> inodes w' i = File True wr c'
                \<and> (if take 2 c = magic then c' = c else \<exists>t p. c' = gz t p c)
         else inodes w' i = inodes w i"
proof (cases "\<exists>n\<in>set (candidates names). paths w (filepath n) = Some i")
  case True
  then obtain n where n: "n \<in> set names" "endswith n ''.frag''" "paths w (filepath n) = Some i"
    by (auto simp: candidates_def)
  from for_loop_fixes [OF assms n(1,2)] obtain j wr c c' where
    f: "paths w (filepath n) = Some j" "inodes w j = File True wr c"
      "inodes w' j = File True wr c'"
      "if take 2 c = magic then c' = c else \<exists>t p. c' = gz t p c"
    by blast
  from f(1) n(3) have "j = i" by simp
  with f have "inodes w i = File True wr c \<and> inodes w' i = File True wr c'
                \<and> (if take 2 c = magic then c' = c else \<exists>t p. c' = gz t p c)"
    by simp
  then have "\<exists>wr c c'. inodes w i = File True wr c \<and> inodes w' i = File True wr c'
                \<and> (if take 2 c = magic then c' = c else \<exists>t p. c' = gz t p c)"
    by blast
  with True show ?thesis by (simp only: if_True)
next
  case False
  then have "\<forall>n\<in>set (candidates names). paths w (filepath n) \<noteq> Some i" by simp
  from for_loop_inodes_frame [OF this, of gz] assms(2) False show ?thesis by simp
qed

section \<open>The claims\<close>

text \<open>
  Claim C1 (fix correctness). In a run that completes, with a gzip encoder that meets the
  contract, every candidate file whose first two bytes differ from \<open>0x1F 0x8B\<close> ends with
  content that starts with \<open>0x1F 0x8B\<close> and that decompresses to exactly the content the
  file had before the run; its permissions are as before.
\<close>

theorem fix_correctness:
  assumes "gzip_magic gz" and "gzip_roundtrip gz gunzip"
    and "main gz w = Inr w'"
    and "dirs w models_dir = Inr names" and "filename \<in> set names"
    and "endswith filename ''.frag''"
    and "files w (filepath filename) = Some (File r wr c)" and "take 2 c \<noteq> magic"
  shows "\<exists>c'. files w' (filepath filename) = Some (File r wr c')
            \<and> take 2 c' = magic \<and> gunzip c' = Some c"
proof -
  from assms(3,4) obtain w1 where loop: "for_loop gz names (print checking_line w) = Inr w1"
      and w': "w' = print done_line w1" and p1: "paths w1 = paths w"
    by (rule main_Inr_loop)
  from for_loop_fixes [OF assms(1) loop assms(5,6)] obtain i wr0 c0 c' where
    f: "paths w (filepath filename) = Some i" "inodes w i = File True wr0 c0"
      "inodes w1 i = File True wr0 c'"
      "if take 2 c0 = magic then c' = c0 else \<exists>t p. c' = gz t p c0"
    by auto
  from f(1,2) assms(7) have eq: "r = True" "wr0 = wr" "c0 = c" by (simp_all add: files_def)
  with f(4) assms(8) obtain t p where c': "c' = gz t p c" by auto
  from f(1,3) eq w' p1 have "files w' (filepath filename) = Some (File r wr c')"
    by (simp add: files_def)
  moreover from assms(1) c' have "take 2 c' = magic" by (simp add: gzip_magic_def)
  moreover from assms(2) c' have "gunzip c' = Some c" by (simp add: gzip_roundtrip_def)
  ultimately show ?thesis by blast
qed

theorem fix_correctness_witness:
  "gzip_magic gzip_stored \<and> gzip_roundtrip gzip_stored gunzip_stored
   \<and> main gzip_stored scenario_world = Inr scenario_done
   \<and> dirs scenario_world models_dir = Inr scenario_names
   \<and> ''mesh.frag'' \<in> set scenario_names \<and> endswith ''mesh.frag'' ''.frag''
   \<and> files scenario_world (filepath ''mesh.frag'') = Some (File True True plain_text_data)
   \<and> take 2 plain_text_data \<noteq> magic
   \<and> (\<exists>c'. files scenario_done (filepath ''mesh.frag'') = Some (File True True c')
          \<and> take 2 c' = magic \<and> gunzip_stored c' = Some plain_text_data)"
proof -
  have h1: "gzip_magic gzip_stored" and h2: "gzip_roundtrip gzip_stored gunzip_stored"
    using gzip_stored_contract by simp_all
  have h3: "main gzip_stored scenario_world = Inr scenario_done" by (rule main_scenario)
  have h4: "dirs scenario_world models_dir = Inr scenario_names"
    by (simp add: scenario_world_def)
  have h5: "''mesh.frag'' \<in> set scenario_names" by (simp add: scenario_names_def)
  have h6: "endswith ''mesh.frag'' ''.frag''" by (simp add: endswith_def)
  have h7: "files scenario_world (filepath ''mesh.frag'') = Some (File True True plain_text_data)"
    by (simp add: scenario_world_def files_def)
  have h8: "take 2 plain_text_data \<noteq> magic" by (simp add: plain_text_data_def magic_def)
  from fix_correctness [OF h1 h2 h3 h4 h5 h6 h7 h8] h1 h2 h3 h4 h5 h6 h7 h8
  show ?thesis by simp
qed

text \<open>
  Claim C2 (classification). A candidate file whose first two bytes equal \<open>0x1F 0x8B\<close>
  keeps its content in every run, and the run never opens it for writing; a run that
  completes prints the line \<open>[OK] <name> is already gzipped.\<close> for it.
\<close>

theorem already_gzipped_unchanged:
  assumes "dirs w models_dir = Inr names" and "filename \<in> set names"
    and "endswith filename ''.frag''"
    and "files w (filepath filename) = Some (File r wr c)" and "take 2 c = magic"
  shows "files (world_of (main gz w)) (filepath filename) = Some (File r wr c)
       \<and> (\<exists>evs. opened (world_of (main gz w)) = opened w @ evs
               \<and> (WB, filepath filename) \<notin> set evs)
       \<and> (\<forall>w'. main gz w = Inr w' \<longrightarrow>
             (\<exists>ls. stdout w' = stdout w @ ls \<and> ok_line filename \<in> set ls))"
proof -
  let ?w0 = "print checking_line w"
  let ?p = "filepath filename"
  have f0: "files ?w0 ?p = Some (File r wr c)" using assms(4) by simp
  have g0: "gzipped ?w0 ?p" using assms(4,5) by (simp add: gzipped_def)
  have "files (world_of (for_loop gz names ?w0)) ?p = Some (File r wr c)"
    using f0 assms(5) by (rule for_loop_keeps_magic)
  then have a: "files (world_of (main gz w)) ?p = Some (File r wr c)"
    by (simp add: main_world_of_listed(5) [OF assms(1)])
  from for_loop_no_write [OF g0, of gz names] obtain evs where
    "opened (world_of (for_loop gz names ?w0)) = opened ?w0 @ evs" "(WB, ?p) \<notin> set evs"
    by blast
  then have "opened (world_of (main gz w)) = opened w @ evs \<and> (WB, ?p) \<notin> set evs"
    by (simp add: main_world_of_listed(3) [OF assms(1)])
  then have b: "\<exists>evs. opened (world_of (main gz w)) = opened w @ evs \<and> (WB, ?p) \<notin> set evs" ..
  have c: "\<exists>ls. stdout w' = stdout w @ ls \<and> ok_line filename \<in> set ls"
    if run: "main gz w = Inr w'" for w'
  proof -
    from run assms(1) obtain w1 where loop: "for_loop gz names ?w0 = Inr w1"
        and w': "w' = print done_line w1"
      by (rule main_Inr_loop)
    from for_loop_ok_line [OF loop assms(2,3) g0] obtain ls where
      "stdout w1 = stdout ?w0 @ ls" "ok_line filename \<in> set ls" by blast
    with w' have "stdout w' = stdout w @ (checking_line # ls @ [done_line])
        \<and> ok_line filename \<in> set (checking_line # ls @ [done_line])" by simp
    then show ?thesis by blast
  qed
  from a b c show ?thesis by blast
qed

theorem already_gzipped_unchanged_witness:
  "dirs scenario_world models_dir = Inr scenario_names
   \<and> ''packed.frag'' \<in> set scenario_names \<and> endswith ''packed.frag'' ''.frag''
   \<and> files scenario_world (filepath ''packed.frag'') = Some (File True False [0x1f, 0x8b, 8, 0])
   \<and> take 2 [0x1f, 0x8b, 8, 0] = magic
   \<and> main gzip_stored scenario_world = Inr scenario_done
   \<and> files scenario_done (filepath ''packed.frag'') = Some (File True False [0x1f, 0x8b, 8, 0])
   \<and> (\<exists>evs. opened scenario_done = opened scenario_world @ evs
           \<and> (WB, filepath ''packed.frag'') \<notin> set evs)
   \<and> (\<exists>ls. stdout scenario_done = stdout scenario_world @ ls
           \<and> ok_line ''packed.frag'' \<in> set ls)"
proof -
  have h1: "dirs scenario_world models_dir = Inr scenario_names"
    by (simp add: scenario_world_def)
  have h2: "''packed.frag'' \<in> set scenario_names" by (simp add: scenario_names_def)
  have h3: "endswith ''packed.frag'' ''.frag''" by (simp add: endswith_def)
  have h4: "files scenario_world (filepath ''packed.frag'')
      = Some (File True False [0x1f, 0x8b, 8, 0])"
    by (simp add: scenario_world_def files_def)
  have h5: "take 2 [0x1f, 0x8b, 8, 0] = magic" by (simp add: magic_def)
  have h6: "main gzip_stored scenario_world = Inr scenario_done" by (rule main_scenario)
  from already_gzipped_unchanged [OF h1 h2 h3 h4 h5, of gzip_stored] h1 h2 h3 h4 h5 h6
  show ?thesis by simp
qed

text \<open>
  Claim C3 (invariant). After a run that completes, every candidate file of the listing
  starts with the gzip magic number: an iteration that succeeds establishes it for its own
  file, and every iteration preserves it for every path.
\<close>

theorem all_candidates_gzipped:
  assumes "gzip_magic gz"
  shows "(main gz w = Inr w' \<and> dirs w models_dir = Inr names
            \<and> filename \<in> set names \<and> endswith filename ''.frag''
          \<longrightarrow> gzipped w' (filepath filename))
       \<and> (process_file gz n w0 = Inr w1 \<longrightarrow> gzipped w1 (filepath n))
       \<and> (gzipped w0 q \<longrightarrow> gzipped (world_of (process_file gz n w0)) q)"
proof -
  have a: "gzipped w' (filepath filename)"
    if "main gz w = Inr w'" "dirs w models_dir = Inr names" "filename \<in> set names"
      "endswith filename ''.frag''"
  proof -
    from that(1,2) obtain w2 where loop: "for_loop gz names (print checking_line w) = Inr w2"
        and w': "w' = print done_line w2" and p2: "paths w2 = paths w"
      by (rule main_Inr_loop)
    from for_loop_fixes [OF assms loop that(3,4)] obtain i wr c c' where
      f: "paths w (filepath filename) = Some i" "inodes w2 i = File True wr c'"
        "if take 2 c = magic then c' = c else \<exists>t p. c' = gz t p c"
      by auto
    from f(3) assms have "take 2 c' = magic" by (auto simp: gzip_magic_def split: if_splits)
    with f(1,2) p2 have "gzipped w2 (filepath filename)" by (simp add: gzipped_def files_def)
    with w' show ?thesis by (simp add: gzipped_def)
  qed
  have b: "gzipped w1 (filepath n)" if "process_file gz n w0 = Inr w1"
  proof -
    from process_file_env(1) [of gz n w0] that have "paths w1 = paths w0" by simp
    with process_file_fixes [OF that] assms show ?thesis
      by (auto simp: gzipped_def files_def gzip_magic_def)
  qed
  have c: "gzipped (world_of (process_file gz n w0)) q" if "gzipped w0 q"
    using that by (rule gzipped_process_file)
  from a b c show ?thesis by blast
qed

theorem all_candidates_gzipped_witness:
  "gzip_magic gzip_stored
   \<and> main gzip_stored scenario_world = Inr scenario_done
   \<and> dirs scenario_world models_dir = Inr scenario_names
   \<and> ''empty.frag'' \<in> set scenario_names \<and> endswith ''empty.frag'' ''.frag''
   \<and> gzipped scenario_done (filepath ''empty.frag'')"
proof -
  have h1: "gzip_magic gzip_stored" using gzip_stored_contract by simp
  have h2: "main gzip_stored scenario_world = Inr scenario_done" by (rule main_scenario)
  have h3: "dirs scenario_world models_dir = Inr scenario_names"
    by (simp add: scenario_world_def)
  have h4: "''empty.frag'' \<in> set scenario_names" by (simp add: scenario_names_def)
  have h5: "endswith ''empty.frag'' ''.frag''" by (simp add: endswith_def)
  from all_candidates_gzipped [OF h1, where w = scenario_world and w' = scenario_done
      and names = scenario_names and filename = "''empty.frag''"]
    h1 h2 h3 h4 h5
  show ?thesis by simp
qed



text \<open>
  Claim C5 states that the two-byte read of a candidate shorter than two bytes fails with
  an \<open>IOError\<close> that aborts the run. On a zero-byte candidate the read returns the empty
  byte string and the run completes.
\<close>

theorem short_read_counterexample:
  "files empty_world (filepath ''empty.frag'') = Some (File True True [])
   \<and> endswith ''empty.frag'' ''.frag''
   \<and> open_rb (filepath ''empty.frag'') empty_world
       = Inr ([], empty_world\<lparr>opened := [(RB, filepath ''empty.frag'')]\<rparr>)
   \<and> read 2 [] = ([] :: bytes)
   \<and> main gzip_stored empty_world = Inr empty_done"
  using main_empty
  by (simp add: empty_world_def empty_disk_def open_rb_def files_def read_def endswith_def)

text \<open>
  Claim C5, amended. For a candidate file shorter than two bytes that can be opened for
  reading, the read of the first two bytes raises no error: it returns the whole content,
  fewer than two bytes, which differs from the magic number, and the iteration treats the
  file as not gzipped: it prints the \<open>[FIX]\<close> line, never the \<open>[OK]\<close> line, reads
  the file again and opens it for writing. Only the failure to open the file is an error,
  and it ends the loop.
\<close>

theorem short_header_read:
  assumes "files w (filepath filename) = Some (File r wr c)" and "length c < 2"
  shows "(r \<longrightarrow> open_rb (filepath filename) w
                  = Inr (c, w\<lparr>opened := opened w @ [(RB, filepath filename)]\<rparr>)
               \<and> read 2 c = c \<and> read 2 c \<noteq> magic
               \<and> opened (world_of (process_file gz filename w))
                   = opened w @ [(RB, filepath filename), (RB, filepath filename),
                                 (WB, filepath filename)]
               \<and> stdout (world_of (process_file gz filename w))
                   = stdout w @ fix_line filename
                       # (if isl (process_file gz filename w) then []
                          else [compressed_line filename]))
       \<and> (\<not> r \<longrightarrow> endswith filename ''.frag'' \<longrightarrow>
             for_loop gz (filename # rest) w
               = Inl (PermissionError, w\<lparr>opened := opened w @ [(RB, filepath filename)]\<rparr>))"
proof -
  from assms(2) have t: "take 2 c = c" by simp
  from assms(2) have m: "c \<noteq> magic" by (auto simp: magic_def)
  from assms(1) obtain i where i: "paths w (filepath filename) = Some i" "inodes w i = File r wr c"
    by (auto simp: files_def)
  have a: "open_rb (filepath filename) w
                  = Inr (c, w\<lparr>opened := opened w @ [(RB, filepath filename)]\<rparr>)
               \<and> read 2 c = c \<and> read 2 c \<noteq> magic" if r
    using that assms(1) t m by (simp add: open_rb_def read_def)
  have b: "opened (world_of (process_file gz filename w))
                   = opened w @ [(RB, filepath filename), (RB, filepath filename),
                                 (WB, filepath filename)]
               \<and> stdout (world_of (process_file gz filename w))
                   = stdout w @ fix_line filename
                       # (if isl (process_file gz filename w) then []
                          else [compressed_line filename])" if r
    using that i t m by (cases rule: process_file_cases [of w filename gz]) simp_all
  have c: "for_loop gz (filename # rest) w
               = Inl (PermissionError, w\<lparr>opened := opened w @ [(RB, filepath filename)]\<rparr>)"
    if "\<not> r" "endswith filename ''.frag''"
    using that i by (simp add: process_file_eval)
  from a b c show ?thesis by blast
qed

theorem short_header_read_witness:
  "files empty_world (filepath ''empty.frag'') = Some (File True True [])
   \<and> length ([] :: bytes) < 2
   \<and> open_rb (filepath ''empty.frag'') empty_world
       = Inr ([], empty_world\<lparr>opened := opened empty_world @ [(RB, filepath ''empty.frag'')]\<rparr>)
   \<and> read 2 [] = ([] :: bytes) \<and> read 2 [] \<noteq> magic
   \<and> opened (world_of (process_file gzip_stored ''empty.frag'' empty_world))
       = opened empty_world @ [(RB, filepath ''empty.frag''), (RB, filepath ''empty.frag''),
                               (WB, filepath ''empty.frag'')]
   \<and> stdout (world_of (process_file gzip_stored ''empty.frag'' empty_world))
       = stdout empty_world @ fix_line ''empty.frag''
           # (if isl (process_file gzip_stored ''empty.frag'' empty_world) then []
              else [compressed_line ''empty.frag''])"
proof -
  have h1: "files empty_world (filepath ''empty.frag'') = Some (File True True [])"
    by (simp add: empty_world_def files_def)
  have h2: "length ([] :: bytes) < 2" by simp
  from short_header_read [OF h1 h2, of gzip_stored] h1 h2 show ?thesis by auto
qed

text \<open>
  Claim C6 states that an entry whose name does not end with \<open>.frag\<close> is never read
  and never modified. When \<open>link.frag\<close> is a link to the file that \<open>readme.txt\<close> names,
  the run compresses that file through the link, and \<open>readme.txt\<close> names other bytes
  after the run than before.
\<close>

theorem scope_counterexample:
  "\<not> endswith ''readme.txt'' ''.frag''
   \<and> dirs link_world models_dir = Inr [''link.frag'', ''readme.txt'']
   \<and> main gzip_stored link_world = Inr link_done
   \<and> files link_world (filepath ''readme.txt'') = Some (File True True [0x68, 0x69])
   \<and> files link_done (filepath ''readme.txt'')
       = Some (File True True (gzip_stored 1000 (filepath ''link.frag'') [0x68, 0x69]))
   \<and> files link_done (filepath ''readme.txt'') \<noteq> files link_world (filepath ''readme.txt'')"
  using main_link
  by (simp add: link_world_def link_done_def empty_disk_def files_def endswith_def
      gzip_stored_def)

text \<open>
  Claim C6, amended (scope restriction). The path of a name that does not end with the
  exact suffix \<open>.frag\<close>, compared character by character and so with the case of each
  letter, is never opened, neither for reading nor for writing, in every run; in a run that
  completes, the paths opened are exactly those of the names of the listing that end with
  \<open>.frag\<close>. What the path names is the same after the run as before when no candidate
  of the listing names the same file.
\<close>

theorem scope_restriction:
  assumes "\<not> endswith filename ''.frag''"
  shows "(\<exists>evs. opened (world_of (main gz w)) = opened w @ evs
               \<and> (\<forall>md. (md, filepath filename) \<notin> set evs))
       \<and> (\<forall>names w'. dirs w models_dir = Inr names \<and> main gz w = Inr w' \<longrightarrow>
             (\<exists>evs. opened w' = opened w @ evs
                   \<and> snd ` set evs = filepath ` {n \<in> set names. endswith n ''.frag''}))
       \<and> ((\<forall>names. dirs w models_dir = Inr names \<longrightarrow>
              (\<forall>n\<in>set names. endswith n ''.frag'' \<longrightarrow>
                 \<not> same_file w (filepath n) (filepath filename)))
           \<longrightarrow> files (world_of (main gz w)) (filepath filename) = files w (filepath filename))"
proof -
  let ?w0 = "print checking_line w"
  have a: "\<exists>evs. opened (world_of (main gz w)) = opened w @ evs
               \<and> (\<forall>md. (md, filepath filename) \<notin> set evs)"
  proof (cases "dirs w models_dir")
    case (Inl e)
    then show ?thesis by (simp add: main_world_of_failed_listing)
  next
    case (Inr names)
    from assms have out: "filepath filename \<notin> filepath ` set (candidates names)"
      by (auto simp: candidates_def)
    from for_loop_opened [of gz names ?w0] obtain evs where
      evs: "opened (world_of (for_loop gz names ?w0)) = opened ?w0 @ evs"
        "snd ` set evs \<subseteq> filepath ` set (candidates names)" by blast
    from evs(2) out have "\<forall>md. (md, filepath filename) \<notin> set evs" by force
    with evs(1) have "opened (world_of (main gz w)) = opened w @ evs
        \<and> (\<forall>md. (md, filepath filename) \<notin> set evs)"
      by (simp add: main_world_of_listed(3) [OF Inr])
    then show ?thesis by blast
  qed
  have b: "\<exists>evs. opened w' = opened w @ evs
                   \<and> snd ` set evs = filepath ` {n \<in> set names. endswith n ''.frag''}"
    if "dirs w models_dir = Inr names" "main gz w = Inr w'" for names w'
  proof -
    from that(2,1) obtain w1 where loop: "for_loop gz names ?w0 = Inr w1"
        and w': "w' = print done_line w1"
      by (rule main_Inr_loop)
    from for_loop_opened_exact [OF loop] w' show ?thesis
      by (simp add: candidates_def)
  qed
  have c: "files (world_of (main gz w)) (filepath filename) = files w (filepath filename)"
    if sep: "\<forall>names. dirs w models_dir = Inr names \<longrightarrow>
              (\<forall>n\<in>set names. endswith n ''.frag'' \<longrightarrow>
                 \<not> same_file w (filepath n) (filepath filename))"
  proof (cases "dirs w models_dir")
    case (Inl e)
    then show ?thesis by (simp add: main_world_of_failed_listing)
  next
    case (Inr names)
    with sep have "\<forall>n\<in>set (candidates names). \<not> same_file ?w0 (filepath n) (filepath filename)"
      by (simp add: candidates_def)
    from for_loop_frame [OF this, of gz] show ?thesis
      by (simp add: main_world_of_listed(5) [OF Inr])
  qed
  from a b c show ?thesis by blast
qed

theorem scope_restriction_witness:
  "\<not> endswith ''readme.txt'' ''.frag'' \<and> \<not> endswith ''MODEL.FRAG'' ''.frag''
   \<and> main gzip_stored scenario_world = Inr scenario_done
   \<and> files scenario_done (filepath ''readme.txt'') = files scenario_world (filepath ''readme.txt'')
   \<and> (\<exists>evs. opened scenario_done = opened scenario_world @ evs
           \<and> (\<forall>md. (md, filepath ''readme.txt'') \<notin> set evs))
   \<and> (\<exists>evs. opened scenario_done = opened scenario_world @ evs
           \<and> (\<forall>md. (md, filepath ''MODEL.FRAG'') \<notin> set evs))"
proof -
  have h1: "\<not> endswith ''readme.txt'' ''.frag''" by (simp add: endswith_def)
  have h2: "\<not> endswith ''MODEL.FRAG'' ''.frag''" by (simp add: endswith_def)
  have h3: "main gzip_stored scenario_world = Inr scenario_done" by (rule main_scenario)
  have h4: "\<forall>names. dirs scenario_world models_dir = Inr names \<longrightarrow>
         (\<forall>n\<in>set names. endswith n ''.frag'' \<longrightarrow>
            \<not> same_file scenario_world (filepath n) (filepath ''readme.txt''))"
    by (simp add: scenario_world_def scenario_names_def same_file_def endswith_def)
  from scope_restriction [OF h1, of gzip_stored scenario_world]
    scope_restriction [OF h2, of gzip_stored scenario_world] h1 h2 h3 h4
  show ?thesis by simp
qed

text \<open>
  Claim C7 (console output). A run that completes prints the startup line, then for each
  candidate in the order of the listing either the \<open>[OK]\<close> line or the \<open>[FIX]\<close> line
  followed by the \<open>Compressed\<close> line, then the completion line, and nothing else. When
  the candidates name distinct files, a candidate gets the \<open>[OK]\<close> line exactly when its
  file started with the magic number before the run.
\<close>

theorem console_output:
  assumes "main gz w = Inr w'" and "dirs w models_dir = Inr names"
  shows "(\<exists>bs. length bs = length (candidates names)
            \<and> stdout w' = stdout w @ [checking_line]
                  @ concat (map2 report bs (candidates names)) @ [done_line])
       \<and> (distinct (map (\<lambda>n. paths w (filepath n)) (candidates names)) \<longrightarrow>
            stdout w' = stdout w @ [checking_line]
              @ concat (map (\<lambda>n. report (gzipped w (filepath n)) n) (candidates names))
              @ [done_line])"
proof -
  let ?w0 = "print checking_line w"
  from assms obtain w1 where loop: "for_loop gz names ?w0 = Inr w1"
      and w': "w' = print done_line w1"
    by (rule main_Inr_loop)
  from for_loop_stdout [OF loop] obtain bs where "length bs = length (candidates names)"
      "stdout w1 = stdout ?w0 @ concat (map2 report bs (candidates names))" by blast
  with w' have "length bs = length (candidates names)
            \<and> stdout w' = stdout w @ [checking_line]
                  @ concat (map2 report bs (candidates names)) @ [done_line]" by simp
  then have a: "\<exists>bs. length bs = length (candidates names)
            \<and> stdout w' = stdout w @ [checking_line]
                  @ concat (map2 report bs (candidates names)) @ [done_line]" ..
  have b: "stdout w' = stdout w @ [checking_line]
              @ concat (map (\<lambda>n. report (gzipped w (filepath n)) n) (candidates names))
              @ [done_line]"
    if "distinct (map (\<lambda>n. paths w (filepath n)) (candidates names))"
  proof -
    from that have "distinct (map (\<lambda>n. paths ?w0 (filepath n)) (candidates names))" by simp
    from for_loop_stdout_exact [OF this loop] w' show ?thesis by (simp add: gzipped_def)
  qed
  from a b show ?thesis by blast
qed

theorem console_output_witness:
  "main gzip_stored scenario_world = Inr scenario_done
   \<and> dirs scenario_world models_dir = Inr scenario_names
   \<and> distinct (map (\<lambda>n. paths scenario_world (filepath n)) (candidates scenario_names))
   \<and> stdout scenario_done = stdout scenario_world @ [checking_line]
        @ concat (map (\<lambda>n. report (gzipped scenario_world (filepath n)) n)
                    (candidates scenario_names))
        @ [done_line]"
proof -
  have h1: "main gzip_stored scenario_world = Inr scenario_done" by (rule main_scenario)
  have h2: "dirs scenario_world models_dir = Inr scenario_names"
    by (simp add: scenario_world_def)
  have h3: "distinct (map (\<lambda>n. paths scenario_world (filepath n)) (candidates scenario_names))"
    by (simp add: scenario_world_def scenario_names_def candidates_def endswith_def)
  from console_output [OF h1 h2] h1 h2 h3 show ?thesis by simp
qed

text \<open>
  Claim C8 states that an error aborts the run and leaves every file after the failure
  point untouched. When \<open>b.frag\<close>, listed after the failing \<open>locked.frag\<close>, is a link
  to the file of \<open>a.frag\<close>, listed before it, the aborted run has compressed the file
  that \<open>b.frag\<close> names.
\<close>

theorem abort_counterexample:
  "dirs abort_world models_dir = Inr [''a.frag'', ''locked.frag'', ''b.frag'']
   \<and> main gzip_stored abort_world = Inl (PermissionError, abort_state)
   \<and> files abort_world (filepath ''b.frag'') = Some (File True True [1, 2, 3])
   \<and> files abort_state (filepath ''b.frag'')
       = Some (File True True (gzip_stored 1000 (filepath ''a.frag'') [1, 2, 3]))
   \<and> files abort_state (filepath ''b.frag'') \<noteq> files abort_world (filepath ''b.frag'')"
  using main_abort
  by (simp add: abort_world_def abort_state_def empty_disk_def files_def gzip_stored_def)

text \<open>
  Claim C8, amended (no recovery). When the directory cannot be listed the run ends with
  the error of the listing after the startup line. When the iteration for a candidate raises
  an error, the run ends with that error and the completion line is not printed. Every file
  other than the failing one is as the iterations before left it, and so is the failing one
  unless its write was cut short; with an encoder that writes the magic number the
  candidates before the failure are gzipped. A path that names neither the file of the
  failing candidate nor the file of a candidate before it names what it named before the
  run, and the path of a name that is neither the failing one nor a candidate before it has
  not been opened.
\<close>

theorem errors_abort_run:
  "(dirs w models_dir = Inl e0 \<longrightarrow> main gz w = Inl (e0, print checking_line w))
   \<and> (dirs w models_dir = Inr (pre @ n # post) \<and> endswith n ''.frag''
        \<and> for_loop gz pre (print checking_line w) = Inr w1
        \<and> process_file gz n w1 = Inl (e, w')
      \<longrightarrow> main gz w = Inl (e, w')
          \<and> (\<forall>q. \<not> same_file w (filepath n) q \<longrightarrow> files w' q = files w1 q)
          \<and> (e \<noteq> OSError \<longrightarrow> files w' = files w1)
          \<and> (gzip_magic gz \<longrightarrow>
                (\<forall>m\<in>set (candidates pre).
                   files w' (filepath m) = files w1 (filepath m) \<and> gzipped w' (filepath m)))
          \<and> (\<forall>m. (\<forall>k\<in>set (candidates pre) \<union> {n}. \<not> same_file w (filepath k) (filepath m))
                \<longrightarrow> files w' (filepath m) = files w (filepath m))
          \<and> (\<exists>evs. opened w' = opened w @ evs
                \<and> (\<forall>m md. m \<notin> set (candidates pre) \<and> m \<noteq> n \<longrightarrow> (md, filepath m) \<notin> set evs))
          \<and> done_line \<notin> set (drop (length (stdout w)) (stdout w')))"
proof -
  let ?w0 = "print checking_line w"
  have b: "main gz w = Inl (e, w')
          \<and> (\<forall>q. \<not> same_file w (filepath n) q \<longrightarrow> files w' q = files w1 q)
          \<and> (e \<noteq> OSError \<longrightarrow> files w' = files w1)
          \<and> (gzip_magic gz \<longrightarrow>
                (\<forall>m\<in>set (candidates pre).
                   files w' (filepath m) = files w1 (filepath m) \<and> gzipped w' (filepath m)))
          \<and> (\<forall>m. (\<forall>k\<in>set (candidates pre) \<union> {n}. \<not> same_file w (filepath k) (filepath m))
                \<longrightarrow> files w' (filepath m) = files w (filepath m))
          \<and> (\<exists>evs. opened w' = opened w @ evs
                \<and> (\<forall>m md. m \<notin> set (candidates pre) \<and> m \<noteq> n \<longrightarrow> (md, filepath m) \<notin> set evs))
          \<and> done_line \<notin> set (drop (length (stdout w)) (stdout w'))"
    if d: "dirs w models_dir = Inr (pre @ n # post)" and n: "endswith n ''.frag''"
      and pre: "for_loop gz pre ?w0 = Inr w1" and fail: "process_file gz n w1 = Inl (e, w')"
  proof -
    from pre fail n have "for_loop gz (pre @ n # post) ?w0 = Inl (e, w')"
      by (simp add: for_loop_append)
    with d have 1: "main gz w = Inl (e, w')" by (simp add: main_listed)
    from for_loop_env(1) [of gz pre ?w0] pre have p1: "paths w1 = paths w" by simp
    from process_file_env(1) [of gz n w1] fail have p': "paths w' = paths w1" by simp
    have 2: "\<forall>q. \<not> same_file w (filepath n) q \<longrightarrow> files w' q = files w1 q"
    proof (intro allI impI)
      fix q assume "\<not> same_file w (filepath n) q"
      then have "\<not> same_file w1 (filepath n) q" by (simp add: same_file_paths [OF p1])
      from process_file_frame [OF this, of gz] fail show "files w' q = files w1 q" by simp
    qed
    have 3: "e \<noteq> OSError \<longrightarrow> files w' = files w1"
    proof
      assume "e \<noteq> OSError"
      with process_file_Inl [OF fail] have "inodes w' = inodes w1" by blast
      with p' have "files w' q = files w1 q" for q by (simp add: files_def)
      then show "files w' = files w1" by (rule ext)
    qed
    have 4: "gzip_magic gz \<longrightarrow>
                (\<forall>m\<in>set (candidates pre).
                   files w' (filepath m) = files w1 (filepath m) \<and> gzipped w' (filepath m))"
    proof (intro impI ballI)
      fix m assume gm: "gzip_magic gz" and m: "m \<in> set (candidates pre)"
      from m have m': "m \<in> set pre" "endswith m ''.frag''" by (simp_all add: candidates_def)
      from for_loop_fixes [OF gm pre m'] obtain i wr c c' where
        f: "paths ?w0 (filepath m) = Some i" "inodes w1 i = File True wr c'"
          "if take 2 c = magic then c' = c else \<exists>t p. c' = gz t p c"
        by auto
      from f(3) gm have mg: "take 2 c' = magic" by (auto simp: gzip_magic_def split: if_splits)
      from f(1,2) p1 have f1: "files w1 (filepath m) = Some (File True wr c')"
        by (simp add: files_def)
      from process_file_keeps_magic [OF f1 mg, of gz n] fail
      have "files w' (filepath m) = Some (File True wr c')" by simp
      with f1 mg show "files w' (filepath m) = files w1 (filepath m) \<and> gzipped w' (filepath m)"
        by (simp add: gzipped_def)
    qed
    have 5: "\<forall>m. (\<forall>k\<in>set (candidates pre) \<union> {n}. \<not> same_file w (filepath k) (filepath m))
                \<longrightarrow> files w' (filepath m) = files w (filepath m)"
    proof (intro allI impI)
      fix m
      assume sep: "\<forall>k\<in>set (candidates pre) \<union> {n}. \<not> same_file w (filepath k) (filepath m)"
      from sep have "\<not> same_file w (filepath n) (filepath m)" by simp
      with 2 have "files w' (filepath m) = files w1 (filepath m)" by simp
      moreover from sep have "\<forall>k\<in>set (candidates pre). \<not> same_file ?w0 (filepath k) (filepath m)"
        by simp
      from for_loop_frame [OF this, of gz] pre have "files w1 (filepath m) = files w (filepath m)"
        by simp
      ultimately show "files w' (filepath m) = files w (filepath m)" by simp
    qed
    from for_loop_opened [of gz pre ?w0] pre obtain evs1 where
      evs1: "opened w1 = opened w @ evs1" "snd ` set evs1 \<subseteq> filepath ` set (candidates pre)"
      by auto
    from process_file_opened [of gz n w1] fail obtain evs2 where
      evs2: "opened w' = opened w1 @ evs2" "snd ` set evs2 \<subseteq> {filepath n}"
      by auto
    have "(md, filepath m) \<notin> set (evs1 @ evs2)" if "m \<notin> set (candidates pre) \<and> m \<noteq> n" for m md
    proof
      assume "(md, filepath m) \<in> set (evs1 @ evs2)"
      then have "filepath m \<in> snd ` set evs1 \<or> filepath m \<in> snd ` set evs2" by force
      with evs1(2) evs2(2) have "filepath m \<in> filepath ` set (candidates pre) \<or> filepath m = filepath n"
        by blast
      with that show False by auto
    qed
    with evs1(1) evs2(1) have "opened w' = opened w @ (evs1 @ evs2)
        \<and> (\<forall>m md. m \<notin> set (candidates pre) \<and> m \<noteq> n \<longrightarrow> (md, filepath m) \<notin> set (evs1 @ evs2))"
      by simp
    then have 6: "\<exists>evs. opened w' = opened w @ evs
                \<and> (\<forall>m md. m \<notin> set (candidates pre) \<and> m \<noteq> n \<longrightarrow> (md, filepath m) \<notin> set evs)" ..
    from for_loop_stdout [OF pre] obtain bs where
      o1: "stdout w1 = stdout ?w0 @ concat (map2 report bs (candidates pre))" by blast
    from process_file_Inl [OF fail] obtain ls where
      o2: "stdout w' = stdout w1 @ ls" "set ls \<subseteq> {fix_line n}" by blast
    from o2(2) done_line_not_fix [of n] have "done_line \<notin> set ls" by auto
    with o1 o2(1) done_line_not_reports [of bs "candidates pre"] done_line_not_checking
    have 7: "done_line \<notin> set (drop (length (stdout w)) (stdout w'))" by simp
    from 1 2 3 4 5 6 7 show ?thesis by (intro conjI)
  qed
  have a: "main gz w = Inl (e0, print checking_line w)" if "dirs w models_dir = Inl e0"
    using that by (rule main_failed_listing)
  show ?thesis
  proof (rule conjI; rule impI)
    assume "dirs w models_dir = Inl e0"
    then show "main gz w = Inl (e0, print checking_line w)" by (rule a)
  next
    assume h: "dirs w models_dir = Inr (pre @ n # post) \<and> endswith n ''.frag''
        \<and> for_loop gz pre (print checking_line w) = Inr w1
        \<and> process_file gz n w1 = Inl (e, w')"
    show "main gz w = Inl (e, w')
          \<and> (\<forall>q. \<not> same_file w (filepath n) q \<longrightarrow> files w' q = files w1 q)
          \<and> (e \<noteq> OSError \<longrightarrow> files w' = files w1)
          \<and> (gzip_magic gz \<longrightarrow>
                (\<forall>m\<in>set (candidates pre).
                   files w' (filepath m) = files w1 (filepath m) \<and> gzipped w' (filepath m)))
          \<and> (\<forall>m. (\<forall>k\<in>set (candidates pre) \<union> {n}. \<not> same_file w (filepath k) (filepath m))
                \<longrightarrow> files w' (filepath m) = files w (filepath m))
          \<and> (\<exists>evs. opened w' = opened w @ evs
                \<and> (\<forall>m md. m \<notin> set (candidates pre) \<and> m \<noteq> n \<longrightarrow> (md, filepath m) \<notin> set evs))
          \<and> done_line \<notin> set (drop (length (stdout w)) (stdout w'))"
      by (rule b; simp add: h)
  qed
qed

theorem errors_abort_run_witness:
  "dirs full_world models_dir = Inr ([''a.frag''] @ ''big.frag'' # [''b.frag''])
   \<and> endswith ''big.frag'' ''.frag''
   \<and> for_loop gzip_stored [''a.frag''] (print checking_line full_world) = Inr full_before
   \<and> process_file gzip_stored ''big.frag'' full_before = Inl (OSError, full_state)
   \<and> gzip_magic gzip_stored
   \<and> main gzip_stored full_world = Inl (OSError, full_state)
   \<and> files full_state (filepath ''a.frag'') = files full_before (filepath ''a.frag'')
   \<and> gzipped full_state (filepath ''a.frag'')
   \<and> files full_state (filepath ''b.frag'') = files full_world (filepath ''b.frag'')
   \<and> (\<exists>evs. opened full_state = opened full_world @ evs
          \<and> (\<forall>md. (md, filepath ''b.frag'') \<notin> set evs))
   \<and> done_line \<notin> set (drop (length (stdout full_world)) (stdout full_state))"
proof -
  have h1: "dirs full_world models_dir = Inr ([''a.frag''] @ ''big.frag'' # [''b.frag''])"
    by (simp add: full_world_def)
  have h2: "endswith ''big.frag'' ''.frag''" by (simp add: endswith_def)
  have h3: "for_loop gzip_stored [''a.frag''] (print checking_line full_world) = Inr full_before"
    by (rule loop_full_before)
  have h4: "process_file gzip_stored ''big.frag'' full_before = Inl (OSError, full_state)"
    by (rule process_full)
  have h5: "gzip_magic gzip_stored" using gzip_stored_contract by simp
  have c: "candidates [''a.frag''] = [''a.frag'']" by (simp add: candidates_def endswith_def)
  have s: "\<forall>k\<in>set (candidates [''a.frag'']) \<union> {''big.frag''}.
             \<not> same_file full_world (filepath k) (filepath ''b.frag'')"
    by (simp add: c full_world_def same_file_def)
  note all = errors_abort_run [where w = full_world and gz = gzip_stored
      and pre = "[''a.frag'']" and n = "''big.frag''" and post = "[''b.frag'']"
      and ?w1.0 = full_before and e = OSError and w' = full_state,
      THEN conjunct2, THEN mp, OF conjI [OF h1 conjI [OF h2 conjI [OF h3 h4]]]]
  note r1 = all [THEN conjunct1]
  note r4 = all [THEN conjunct2, THEN conjunct2, THEN conjunct2, THEN conjunct1]
  note r5 = all [THEN conjunct2, THEN conjunct2, THEN conjunct2, THEN conjunct2, THEN conjunct1]
  note r6 = all [THEN conjunct2, THEN conjunct2, THEN conjunct2, THEN conjunct2, THEN conjunct2,
      THEN conjunct1]
  note r7 = all [THEN conjunct2, THEN conjunct2, THEN conjunct2, THEN conjunct2, THEN conjunct2,
      THEN conjunct2]
  have ina: "''a.frag'' \<in> set (candidates [''a.frag''])" by (simp add: c)
  from r4 [THEN mp, OF h5, THEN bspec, OF ina]
  have a1: "files full_state (filepath ''a.frag'') = files full_before (filepath ''a.frag'')"
    and a2: "gzipped full_state (filepath ''a.frag'')" by simp_all
  from r5 [THEN spec, THEN mp, OF s]
  have b1: "files full_state (filepath ''b.frag'') = files full_world (filepath ''b.frag'')" .
  from r6 obtain evs where evs: "opened full_state = opened full_world @ evs"
      "\<forall>m md. m \<notin> set (candidates [''a.frag'']) \<and> m \<noteq> ''big.frag''
             \<longrightarrow> (md, filepath m) \<notin> set evs" by blast
  from evs(2) c have "\<forall>md. (md, filepath ''b.frag'') \<notin> set evs" by simp
  with evs(1) have b2: "\<exists>evs. opened full_state = opened full_world @ evs
          \<and> (\<forall>md. (md, filepath ''b.frag'') \<notin> set evs)" by blast
  from h1 h2 h3 h4 h5 r1 a1 a2 b1 b2 r7 show ?thesis by (intro conjI)
qed

text \<open>
  Claim C9 states that two runs over permutations of the listing leave identical file
  contents. The gzip header carries the time of the write: in the listing order the model
  is compressed at the first reading of the clock, in the opposite order at the second, and
  the two members differ.
\<close>

theorem order_counterexample:
  "paths scenario_reversed = paths scenario_world
   \<and> inodes scenario_reversed = inodes scenario_world
   \<and> dirs scenario_world models_dir = Inr scenario_names
   \<and> dirs scenario_reversed models_dir = Inr (rev scenario_names)
   \<and> mset (rev scenario_names) = mset scenario_names
   \<and> main gzip_stored scenario_world = Inr scenario_done
   \<and> main gzip_stored scenario_reversed = Inr scenario_reversed_done
   \<and> files scenario_done (filepath ''mesh.frag'')
       = Some (File True True (gzip_stored 1000 (filepath ''mesh.frag'') plain_text_data))
   \<and> files scenario_reversed_done (filepath ''mesh.frag'')
       = Some (File True True (gzip_stored 1001 (filepath ''mesh.frag'') plain_text_data))
   \<and> files scenario_done (filepath ''mesh.frag'')
       \<noteq> files scenario_reversed_done (filepath ''mesh.frag'')"
  using main_scenario main_scenario_reversed gzip_stored_mtime
  by (simp add: scenario_reversed_def scenario_reversed_done_def scenario_done_def
      scenario_world_def empty_disk_def files_def)

text \<open>
  Claim C9, amended (order independence). Two worlds with the same files whose listings
  are permutations of each other, and a run on each that completes: every path names the
  same bytes after both runs, or names a file that did not start with the magic number and
  that after both runs is a gzip member of the content it had before. The members are the
  same bytes when the encoder's output depends neither on the time nor on the path of the
  write.
\<close>

theorem order_independent:
  assumes "gzip_magic gz" and "gzip_roundtrip gz gunzip"
    and "paths w2 = paths w1" and "inodes w2 = inodes w1"
    and "dirs w1 models_dir = Inr names1" and "dirs w2 models_dir = Inr names2"
    and "mset names2 = mset names1"
    and "main gz w1 = Inr w1'" and "main gz w2 = Inr w2'"
  shows "(\<forall>p. files w1' p = files w2' p
            \<or> (\<exists>r wr c c1 c2. files w1 p = Some (File r wr c) \<and> take 2 c \<noteq> magic
                  \<and> files w1' p = Some (File r wr c1) \<and> files w2' p = Some (File r wr c2)
                  \<and> take 2 c1 = magic \<and> take 2 c2 = magic
                  \<and> gunzip c1 = Some c \<and> gunzip c2 = Some c))
       \<and> ((\<forall>t t' p p' d. gz t p d = gz t' p' d) \<longrightarrow> files w1' = files w2')"
proof -
  from assms(7) have "set names2 = set names1" by (rule mset_eq_setD)
  then have cs: "set (candidates names2) = set (candidates names1)"
    by (simp add: candidates_def)
  from assms(8,5) obtain v1 where loop1: "for_loop gz names1 (print checking_line w1) = Inr v1"
      and w1': "w1' = print done_line v1" and pv1: "paths v1 = paths w1"
    by (rule main_Inr_loop)
  from assms(9,6) obtain v2 where loop2: "for_loop gz names2 (print checking_line w2) = Inr v2"
      and w2': "w2' = print done_line v2" and pv2: "paths v2 = paths w2"
    by (rule main_Inr_loop)
  have key: "files w1' p = files w2' p
            \<or> (\<exists>r wr c t q t' q'. files w1 p = Some (File r wr c) \<and> take 2 c \<noteq> magic
                  \<and> files w1' p = Some (File r wr (gz t q c))
                  \<and> files w2' p = Some (File r wr (gz t' q' c)))" for p
  proof (cases "paths w1 p")
    case None
    with assms(3) w1' w2' pv1 pv2 show ?thesis by (simp add: files_def)
  next
    case (Some i)
    note r1 = for_loop_inode_result [OF assms(1) loop1, of i]
    note r2 = for_loop_inode_result [OF assms(1) loop2, of i]
    show ?thesis
    proof (cases "\<exists>n\<in>set (candidates names1). paths w1 (filepath n) = Some i")
      case False
      with cs assms(3) have "\<not> (\<exists>n\<in>set (candidates names2). paths w2 (filepath n) = Some i)"
        by simp
      with r2 have "inodes v2 i = inodes w2 i" by simp
      moreover from False r1 have "inodes v1 i = inodes w1 i" by simp
      ultimately show ?thesis using Some assms(3,4) w1' w2' pv1 pv2 by (simp add: files_def)
    next
      case True
      with cs assms(3) have T2: "\<exists>n\<in>set (candidates names2). paths w2 (filepath n) = Some i"
        by simp
      from True r1 obtain wr c c1 where
        a: "inodes w1 i = File True wr c" "inodes v1 i = File True wr c1"
          "if take 2 c = magic then c1 = c else \<exists>t q. c1 = gz t q c"
        by auto
      from T2 r2 obtain wr' c' c2 where
        b: "inodes w2 i = File True wr' c'" "inodes v2 i = File True wr' c2"
          "if take 2 c' = magic then c2 = c' else \<exists>t q. c2 = gz t q c'"
        by auto
      from a(1) b(1) assms(4) have same: "wr' = wr" "c' = c" by simp_all
      have f1: "files w1' p = Some (File True wr c1)"
        using Some a(2) w1' pv1 by (simp add: files_def)
      have f2: "files w2' p = Some (File True wr c2)"
        using Some b(2) same w2' pv2 assms(3) by (simp add: files_def)
      have f0: "files w1 p = Some (File True wr c)" using Some a(1) by (simp add: files_def)
      show ?thesis
      proof (cases "take 2 c = magic")
        case True
        with a(3) b(3) same have "c1 = c2" by simp
        with f1 f2 show ?thesis by simp
      next
        case False
        with a(3) b(3) same obtain t q t' q' where "c1 = gz t q c" "c2 = gz t' q' c" by auto
        with f0 f1 f2 False show ?thesis by blast
      qed
    qed
  qed
  have A: "files w1' p = files w2' p
            \<or> (\<exists>r wr c c1 c2. files w1 p = Some (File r wr c) \<and> take 2 c \<noteq> magic
                  \<and> files w1' p = Some (File r wr c1) \<and> files w2' p = Some (File r wr c2)
                  \<and> take 2 c1 = magic \<and> take 2 c2 = magic
                  \<and> gunzip c1 = Some c \<and> gunzip c2 = Some c)" for p
  proof -
    from key [of p] show ?thesis
    proof
      assume "files w1' p = files w2' p"
      then show ?thesis ..
    next
      assume "\<exists>r wr c t q t' q'. files w1 p = Some (File r wr c) \<and> take 2 c \<noteq> magic
                  \<and> files w1' p = Some (File r wr (gz t q c))
                  \<and> files w2' p = Some (File r wr (gz t' q' c))"
      then obtain r wr c t q t' q' where k: "files w1 p = Some (File r wr c)" "take 2 c \<noteq> magic"
          "files w1' p = Some (File r wr (gz t q c))" "files w2' p = Some (File r wr (gz t' q' c))"
        by blast
      from assms(1) have "take 2 (gz t q c) = magic" "take 2 (gz t' q' c) = magic"
        by (simp_all add: gzip_magic_def)
      moreover from assms(2) have "gunzip (gz t q c) = Some c" "gunzip (gz t' q' c) = Some c"
        by (simp_all add: gzip_roundtrip_def)
      ultimately show ?thesis using k by blast
    qed
  qed
  have B: "files w1' = files w2'" if ind: "\<forall>t t' p p' d. gz t p d = gz t' p' d"
  proof
    fix p
    from key [of p] show "files w1' p = files w2' p"
    proof
      assume "files w1' p = files w2' p"
      then show ?thesis .
    next
      assume "\<exists>r wr c t q t' q'. files w1 p = Some (File r wr c) \<and> take 2 c \<noteq> magic
                  \<and> files w1' p = Some (File r wr (gz t q c))
                  \<and> files w2' p = Some (File r wr (gz t' q' c))"
      then obtain r wr c t q t' q' where
          "files w1' p = Some (File r wr (gz t q c))" "files w2' p = Some (File r wr (gz t' q' c))"
        by blast
      moreover from ind have "gz t q c = gz t' q' c" by blast
      ultimately show ?thesis by simp
    qed
  qed
  from A B show ?thesis by blast
qed

theorem order_independent_witness:
  "gzip_magic gzip_stored \<and> gzip_roundtrip gzip_stored gunzip_stored
   \<and> paths scenario_reversed = paths scenario_world
   \<and> inodes scenario_reversed = inodes scenario_world
   \<and> dirs scenario_world models_dir = Inr scenario_names
   \<and> dirs scenario_reversed models_dir = Inr (rev scenario_names)
   \<and> mset (rev scenario_names) = mset scenario_names
   \<and> main gzip_stored scenario_world = Inr scenario_done
   \<and> main gzip_stored scenario_reversed = Inr scenario_reversed_done
   \<and> (\<forall>p. files scenario_done p = files scenario_reversed_done p
         \<or> (\<exists>r wr c c1 c2. files scenario_world p = Some (File r wr c) \<and> take 2 c \<noteq> magic
               \<and> files scenario_done p = Some (File r wr c1)
               \<and> files scenario_reversed_done p = Some (File r wr c2)
               \<and> take 2 c1 = magic \<and> take 2 c2 = magic
               \<and> gunzip_stored c1 = Some c \<and> gunzip_stored c2 = Some c))"
proof -
  have h1: "gzip_magic gzip_stored" and h2: "gzip_roundtrip gzip_stored gunzip_stored"
    using gzip_stored_contract by simp_all
  have h3: "paths scenario_reversed = paths scenario_world"
    and h4: "inodes scenario_reversed = inodes scenario_world"
    by (simp_all add: scenario_reversed_def)
  have h5: "dirs scenario_world models_dir = Inr scenario_names"
    by (simp add: scenario_world_def)
  have h6: "dirs scenario_reversed models_dir = Inr (rev scenario_names)"
    by (simp add: scenario_reversed_def)
  have h7: "mset (rev scenario_names) = mset scenario_names" by simp
  have h8: "main gzip_stored scenario_world = Inr scenario_done" by (rule main_scenario)
  have h9: "main gzip_stored scenario_reversed = Inr scenario_reversed_done"
    by (rule main_scenario_reversed)
  from order_independent [OF h1 h2 h3 h4 h5 h6 h7 h8 h9] h1 h2 h3 h4 h5 h6 h7 h8 h9
  show ?thesis by blast
qed

text \<open>
  Claim C10 (short files). For a readable and writable candidate shorter than two bytes, a
  zero-byte file included, the header read returns the short byte string without an error;
  the header differs from the magic number, so the iteration prints the \<open>[FIX]\<close> line
  and writes the gzip member of the short content over the file. When the member can be
  written whole the iteration prints the confirmation and the loop goes on with the rest of
  the listing.
\<close>

theorem short_file_compressed:
  assumes "files w (filepath filename) = Some (File True True c)" and "length c < 2"
    and "endswith filename ''.frag''"
  shows "open_rb (filepath filename) w
           = Inr (c, w\<lparr>opened := opened w @ [(RB, filepath filename)]\<rparr>)
       \<and> read 2 c = c \<and> read 2 c \<noteq> magic
       \<and> (\<exists>i. paths w (filepath filename) = Some i
            \<and> process_file gz filename w =
               (if fits (fsize_limit w) (gz (clock w (clock_reads w)) (filepath filename) c)
                then Inr (w\<lparr>opened := opened w
                               @ [(RB, filepath filename), (RB, filepath filename),
                                  (WB, filepath filename)],
                            stdout := stdout w @ [fix_line filename, compressed_line filename],
                            clock_reads := Suc (clock_reads w),
                            inodes := (inodes w)
                              (i := File True True
                                 (gz (clock w (clock_reads w)) (filepath filename) c))\<rparr>)
                else Inl (OSError,
                          w\<lparr>opened := opened w
                               @ [(RB, filepath filename), (RB, filepath filename),
                                  (WB, filepath filename)],
                            stdout := stdout w @ [fix_line filename],
                            clock_reads := Suc (clock_reads w),
                            inodes := (inodes w)
                              (i := File True True
                                 (written (fsize_limit w)
                                    (gz (clock w (clock_reads w)) (filepath filename) c)))\<rparr>))
            \<and> (fits (fsize_limit w) (gz (clock w (clock_reads w)) (filepath filename) c) \<longrightarrow>
                 for_loop gz (filename # rest) w =
                   for_loop gz rest
                     (w\<lparr>opened := opened w
                          @ [(RB, filepath filename), (RB, filepath filename),
                             (WB, filepath filename)],
                        stdout := stdout w @ [fix_line filename, compressed_line filename],
                        clock_reads := Suc (clock_reads w),
                        inodes := (inodes w)
                          (i := File True True
                             (gz (clock w (clock_reads w)) (filepath filename) c))\<rparr>)))"
proof -
  from assms(2) have t: "take 2 c = c" by simp
  from assms(2) have m: "c \<noteq> magic" by (auto simp: magic_def)
  from assms(1) obtain i where i: "paths w (filepath filename) = Some i"
      "inodes w i = File True True c"
    by (auto simp: files_def)
  have a: "open_rb (filepath filename) w
           = Inr (c, w\<lparr>opened := opened w @ [(RB, filepath filename)]\<rparr>)
       \<and> read 2 c = c \<and> read 2 c \<noteq> magic"
    using assms(1) t m by (simp add: open_rb_def read_def)
  from i t m assms(3) a show ?thesis
    by (intro conjI exI [of _ i]) (simp_all add: process_file_eval)
qed

theorem short_file_compressed_witness:
  "files empty_world (filepath ''empty.frag'') = Some (File True True [])
   \<and> length ([] :: bytes) < 2 \<and> endswith ''empty.frag'' ''.frag''
   \<and> fits (fsize_limit empty_world) (gzip_stored 1000 (filepath ''empty.frag'') [])
   \<and> process_file gzip_stored ''empty.frag'' empty_world =
       Inr (empty_world
              \<lparr>opened := opened empty_world
                 @ [(RB, filepath ''empty.frag''), (RB, filepath ''empty.frag''),
                    (WB, filepath ''empty.frag'')],
               stdout := stdout empty_world
                 @ [fix_line ''empty.frag'', compressed_line ''empty.frag''],
               clock_reads := Suc (clock_reads empty_world),
               inodes := (inodes empty_world)
                 (1 := File True True (gzip_stored 1000 (filepath ''empty.frag'') []))\<rparr>)
   \<and> gunzip_stored (gzip_stored 1000 (filepath ''empty.frag'') []) = Some []"
proof -
  have h1: "files empty_world (filepath ''empty.frag'') = Some (File True True [])"
    by (simp add: empty_world_def files_def)
  have h2: "length ([] :: bytes) < 2" by simp
  have h3: "endswith ''empty.frag'' ''.frag''" by (simp add: endswith_def)
  have h4: "fits (fsize_limit empty_world) (gzip_stored 1000 (filepath ''empty.frag'') [])"
    by (simp add: empty_world_def empty_disk_def fits_def)
  have p: "paths empty_world (filepath ''empty.frag'') = Some 1"
    and k: "clock empty_world (clock_reads empty_world) = 1000"
    by (simp_all add: empty_world_def empty_disk_def)
  from short_file_compressed [OF h1 h2 h3, of gzip_stored] h1 h2 h3 h4 p k gunzip_gzip_stored
  show ?thesis by auto
qed

end
